theory Spec2Isabelle
  imports Main
begin

section \<open>Data model\<close>

text \<open>
  The batching core of the repository (package pixel, type Batch and its two proxy types)
  is embedded over an explicit store. Every Go pointer is an index into one of the store's
  object lists; an index beyond the end of its list is a nil (or dangling) pointer, and
  allocation appends, so a new object never aliases an old one. A panic is the value
  \<open>Inl e\<close>; it is returned with the store as it stood when the panic was raised, so
  that what a failing call had already written remains visible.
\<close>

type_synonym ref = nat

datatype error =
  NilPointer | TypeAssertion | PictureMismatch | BatchMismatch | LengthMismatch | OutOfRange
  | Uncomparable

datatype property = FPosition | FColor | FPicture

record 'f RGBA =
  R :: 'f
  G :: 'f
  B :: 'f
  A :: 'f

record ('v, 'f) vertex =
  Position :: 'v
  Color :: "'f RGBA"
  TexCoord :: 'v

text \<open>
  A geometry buffer is a view: a backing array, an offset, a length, and the vertex
  properties the implementation supports.
\<close>

record buffer =
  arr :: ref
  off :: nat
  len :: nat
  props :: "property set"

text \<open>
  A \<open>Picture\<close> is an interface value: nil, a pointer to a picture object, a value of a
  comparable non-pointer type (dynamic type and value), or a value of a type that Go cannot
  compare, such as a struct holding a slice (dynamic type and value). Go's \<open>!=\<close> on
  two interface values is false when both are nil or both have the same dynamic type and
  equal values, so for pointers it is identity and for other comparable types it is
  equality of values; it panics at run time when both have the same uncomparable dynamic
  type; it is true in every other case.
\<close>

datatype Picture = PicNil | PicPtr ref | PicVal nat nat | PicUncomparable nat nat

definition Picture_neq :: "Picture \<Rightarrow> Picture \<Rightarrow> error + bool" where
  "Picture_neq p q =
     (case (p, q) of
        (PicUncomparable ty v, PicUncomparable ty' v') \<Rightarrow>
          if ty = ty' then Inl Uncomparable else Inr True
      | _ \<Rightarrow> Inr (p \<noteq> q))"


record Drawer =
  Triangles :: ref
  Picture :: Picture
  dirty :: bool

record ('m, 'f) Batch =
  cont :: Drawer
  mat :: 'm
  col :: "'f RGBA"

record batchTriangles =
  tri :: ref
  tmp :: ref
  dst :: ref

record batchPicture =
  pic :: Picture
  dst :: ref

text \<open>
  Interface values. A \<open>color.Color\<close> is nil (\<open>None\<close>), an RGBA, or a colour of some
  other implementation. A \<open>TargetTriangles\<close> is nil, a pointer to a batchTriangles, or
  a value of some other implementation.
\<close>

datatype ('f, 'o) Color = IsRGBA "'f RGBA" | OtherColor 'o

datatype TargetTriangles = TTnil | TTbatch ref | TTother nat

record ('m, 'v, 'f) store =
  arrays :: "('v, 'f) vertex list list"
  bufs :: "buffer list"
  batches :: "('m, 'f) Batch list"
  btris :: "batchTriangles list"
  bpics :: "batchPicture list"

type_synonym ('a, 's) M = "'s \<Rightarrow> (error + 'a) \<times> 's"

definition ret :: "'a \<Rightarrow> ('a, 's) M" where
  "ret x = (\<lambda>s. (Inr x, s))"

definition panic :: "error \<Rightarrow> ('a, 's) M" where
  "panic e = (\<lambda>s. (Inl e, s))"

definition bnd :: "('a, 's) M \<Rightarrow> ('a \<Rightarrow> ('b, 's) M) \<Rightarrow> ('b, 's) M" where
  "bnd m f = (\<lambda>s. case m s of (Inl e, s') \<Rightarrow> (Inl e, s') | (Inr x, s') \<Rightarrow> f x s')"

definition nth_opt :: "'a list \<Rightarrow> nat \<Rightarrow> 'a option" where
  "nth_opt xs i = (if i < length xs then Some (xs ! i) else None)"

definition deref :: "('s \<Rightarrow> 'a list) \<Rightarrow> ref \<Rightarrow> ('a, 's) M" where
  "deref sel r = (\<lambda>s. case nth_opt (sel s) r of None \<Rightarrow> (Inl NilPointer, s) | Some x \<Rightarrow> (Inr x, s))"

section \<open>Geometry buffers\<close>

definition all_fields :: "property set" where
  "all_fields = {FPosition, FColor, FPicture}"

definition white :: "('f::one) RGBA" where
  "white = \<lparr>R = 1, G = 1, B = 1, A = 1\<rparr>"

text \<open>
  Modelled from the spec: RGBA.Mul is not in the sources; the spec describes it as the
  component-wise product of two colours.
\<close>

definition Mul :: "('f::times) RGBA \<Rightarrow> 'f RGBA \<Rightarrow> 'f RGBA" where
  "Mul c d = \<lparr>R = R c * R d, G = G c * G d, B = B c * B d, A = A c * A d\<rparr>"

text \<open>
  Modelled from the spec: ToRGBA is not in the sources. The spec gives a Batch the default
  colour mask opaque white, which NewBatch installs through SetColorMask, so a colour that
  is already an RGBA converts to itself; the conversion of any other colour is the
  parameter \<open>conv\<close>.
\<close>

definition ToRGBA :: "('o \<Rightarrow> 'f RGBA) \<Rightarrow> ('f, 'o) Color \<Rightarrow> 'f RGBA" where
  "ToRGBA conv c = (case c of IsRGBA x \<Rightarrow> x | OtherColor y \<Rightarrow> conv y)"

definition put_fields ::
  "property set \<Rightarrow> ('v, 'f) vertex \<Rightarrow> ('v, 'f) vertex \<Rightarrow> ('v, 'f) vertex" where
  "put_fields F s d =
     \<lparr>Position = (if FPosition \<in> F then Position s else Position d),
      Color = (if FColor \<in> F then Color s else Color d),
      TexCoord = (if FPicture \<in> F then TexCoord s else TexCoord d)\<rparr>"

definition write_at :: "nat \<Rightarrow> 'a list \<Rightarrow> 'a list \<Rightarrow> 'a list" where
  "write_at k ys xs = take k xs @ ys @ drop (k + length ys) xs"

definition view :: "('m, 'v, 'f) store \<Rightarrow> buffer \<Rightarrow> ('v, 'f) vertex list" where
  "view s b = (case nth_opt (arrays s) (arr b) of None \<Rightarrow> []
     | Some xs \<Rightarrow> take (len b) (drop (off b) xs))"

text \<open>
  Modelled from the spec: the Triangles interface and its implementation TrianglesData are
  not in the sources. The spec's Geometry Buffer is an ordered, resizable sequence of
  vertices with \<open>length\<close>, \<open>setLength\<close>, \<open>slice\<close> (an aliasing view over
  \<open>[i, j)\<close>, for \<open>0 \<le> i \<le> j \<le> length\<close>), \<open>update\<close> (copies the fields both
  buffers support, fails when the lengths differ, before any write) and \<open>copy\<close> (an
  independent buffer with the same contents). A buffer that grows writes the parameter
  \<open>dv\<close> (the vertex a new slot starts with) into the new slots: in place while the
  backing array has room behind the view, into a new array otherwise.
\<close>

definition Triangles_Len :: "ref \<Rightarrow> (int, ('m, 'v, 'f) store) M" where
  "Triangles_Len h = bnd (deref bufs h) (\<lambda>b. ret (int (len b)))"

definition Triangles_SetLen ::
  "('v, 'f) vertex \<Rightarrow> ref \<Rightarrow> int \<Rightarrow> (unit, ('m, 'v, 'f) store) M" where
  "Triangles_SetLen dv h n =
     bnd (deref bufs h) (\<lambda>b.
       if n < 0 then panic OutOfRange
       else if nat n \<le> len b then
         (\<lambda>s. (Inr (), s\<lparr>bufs := (bufs s)[h := b\<lparr>len := nat n\<rparr>]\<rparr>))
       else bnd (deref arrays (arr b)) (\<lambda>xs.
         if off b + nat n \<le> length xs then
           (\<lambda>s. (Inr (), s\<lparr>arrays := (arrays s)[arr b :=
                      write_at (off b + len b) (replicate (nat n - len b) dv) xs],
                    bufs := (bufs s)[h := b\<lparr>len := nat n\<rparr>]\<rparr>))
         else
           (\<lambda>s. (Inr (), s\<lparr>arrays := arrays s @
                      [take (len b) (drop (off b) xs) @ replicate (nat n - len b) dv],
                    bufs := (bufs s)[h := b\<lparr>arr := length (arrays s), off := 0,
                      len := nat n\<rparr>]\<rparr>))))"

definition Triangles_Slice :: "ref \<Rightarrow> int \<Rightarrow> int \<Rightarrow> (ref, ('m, 'v, 'f) store) M" where
  "Triangles_Slice h i j =
     bnd (deref bufs h) (\<lambda>b.
       if 0 \<le> i \<and> i \<le> j \<and> j \<le> int (len b) then
         (\<lambda>s. (Inr (length (bufs s)),
                s\<lparr>bufs := bufs s @ [b\<lparr>off := off b + nat i, len := nat (j - i)\<rparr>]\<rparr>))
       else panic OutOfRange)"

definition Triangles_Update :: "ref \<Rightarrow> ref \<Rightarrow> (unit, ('m, 'v, 'f) store) M" where
  "Triangles_Update h t =
     bnd (deref bufs h) (\<lambda>b.
     bnd (deref bufs t) (\<lambda>c.
       if len b \<noteq> len c then panic LengthMismatch
       else bnd (deref arrays (arr b)) (\<lambda>xs.
            bnd (deref arrays (arr c)) (\<lambda>ys.
         if off b + len b \<le> length xs \<and> off c + len c \<le> length ys then
           (\<lambda>s. (Inr (), s\<lparr>arrays := (arrays s)[arr b :=
              write_at (off b)
                (map2 (put_fields (props b \<inter> props c)) (view s c) (view s b)) xs]\<rparr>))
         else panic OutOfRange))))"

definition Triangles_Copy :: "ref \<Rightarrow> (ref, ('m, 'v, 'f) store) M" where
  "Triangles_Copy h =
     bnd (deref bufs h) (\<lambda>b.
     bnd (deref arrays (arr b)) (\<lambda>xs.
       (\<lambda>s. (Inr (length (bufs s)),
              s\<lparr>arrays := arrays s @ [view s b],
                bufs := bufs s @ [b\<lparr>arr := length (arrays s), off := 0\<rparr>]\<rparr>))))"

definition MakeTrianglesData ::
  "('v, 'f) vertex \<Rightarrow> int \<Rightarrow> (ref, ('m, 'v, 'f) store) M" where
  "MakeTrianglesData dv n =
     (if n < 0 then panic OutOfRange
      else (\<lambda>s. (Inr (length (bufs s)),
              s\<lparr>arrays := arrays s @ [replicate (nat n) dv],
                bufs := bufs s @ [\<lparr>arr = length (arrays s), off = 0, len = nat n,
                  props = all_fields\<rparr>]\<rparr>)))"

text \<open>
  Modelled from the spec: Drawer is not in the sources. The spec's Composite Drawable
  Target couples a geometry buffer with an image and a dirty flag, which its
  \<open>notifyExternalChange\<close> sets.
\<close>

definition Drawer_Dirty :: "Drawer \<Rightarrow> Drawer" where
  "Drawer_Dirty d = d\<lparr>dirty := True\<rparr>"

section \<open>Batch\<close>

definition Batch_SetMatrix :: "ref \<Rightarrow> 'm \<Rightarrow> (unit, ('m, 'v, 'f) store) M" where
  "Batch_SetMatrix b m =
     bnd (deref batches b) (\<lambda>x.
       (\<lambda>s. (Inr (), s\<lparr>batches := (batches s)[b := x\<lparr>mat := m\<rparr>]\<rparr>)))"

definition Batch_SetColorMask ::
  "('o \<Rightarrow> 'f RGBA) \<Rightarrow> ref \<Rightarrow> ('f, 'o) Color option \<Rightarrow> (unit, ('m, 'v, 'f::one) store) M" where
  "Batch_SetColorMask conv b c =
     bnd (deref batches b) (\<lambda>x.
       if c = None then
         (\<lambda>s. (Inr (), s\<lparr>batches := (batches s)[b := x\<lparr>col := white\<rparr>]\<rparr>))
       else
         (\<lambda>s. (Inr (), s\<lparr>batches := (batches s)[b := x\<lparr>col := ToRGBA conv (the c)\<rparr>]\<rparr>)))"

definition Batch_Dirty :: "ref \<Rightarrow> (unit, ('m, 'v, 'f) store) M" where
  "Batch_Dirty b =
     bnd (deref batches b) (\<lambda>x.
       (\<lambda>s. (Inr (), s\<lparr>batches := (batches s)[b := x\<lparr>cont := Drawer_Dirty (cont x)\<rparr>]\<rparr>)))"

definition Batch_Clear :: "('v, 'f) vertex \<Rightarrow> ref \<Rightarrow> (unit, ('m, 'v, 'f) store) M" where
  "Batch_Clear dv b =
     bnd (deref batches b) (\<lambda>x.
     bnd (Triangles_SetLen dv (Triangles (cont x)) 0) (\<lambda>_.
     Batch_Dirty b))"


definition Batch_MakeTriangles ::
  "('v, 'f) vertex \<Rightarrow> ref \<Rightarrow> ref \<Rightarrow> (TargetTriangles, ('m, 'v, 'f) store) M" where
  "Batch_MakeTriangles dv b t =
     bnd (Triangles_Copy t) (\<lambda>c.
     bnd (Triangles_Len t) (\<lambda>n.
     bnd (MakeTrianglesData dv n) (\<lambda>d.
       (\<lambda>s. (Inr (TTbatch (length (btris s))),
              s\<lparr>btris := btris s @ [\<lparr>tri = c, tmp = d, dst = b\<rparr>]\<rparr>)))))"

definition Batch_MakePicture :: "ref \<Rightarrow> Picture \<Rightarrow> (ref, ('m, 'v, 'f) store) M" where
  "Batch_MakePicture b p =
     bnd (deref batches b) (\<lambda>x.
     bnd (\<lambda>s. (Picture_neq p (Picture (cont x)), s)) (\<lambda>ne.
       if ne then panic PictureMismatch
       else (\<lambda>s. (Inr (length (bpics s)),
                   s\<lparr>bpics := bpics s @ [\<lparr>pic = p, dst = b\<rparr>]\<rparr>))))"

section \<open>The geometry proxy\<close>

definition batchTriangles_Len :: "ref \<Rightarrow> (int, ('m, 'v, 'f) store) M" where
  "batchTriangles_Len bt = bnd (deref btris bt) (\<lambda>x. Triangles_Len (tri x))"

definition batchTriangles_SetLen ::
  "('v, 'f) vertex \<Rightarrow> ref \<Rightarrow> int \<Rightarrow> (unit, ('m, 'v, 'f) store) M" where
  "batchTriangles_SetLen dv bt n =
     bnd (deref btris bt) (\<lambda>x.
     bnd (Triangles_SetLen dv (tri x) n) (\<lambda>_.
     Triangles_SetLen dv (tmp x) n))"

definition batchTriangles_Slice :: "ref \<Rightarrow> int \<Rightarrow> int \<Rightarrow> (ref, ('m, 'v, 'f) store) M" where
  "batchTriangles_Slice bt i j =
     bnd (deref btris bt) (\<lambda>x.
     bnd (Triangles_Slice (tri x) i j) (\<lambda>c.
     bnd (Triangles_Slice (tmp x) i j) (\<lambda>d.
       (\<lambda>s. (Inr (length (btris s)),
              s\<lparr>btris := btris s @ [\<lparr>tri = c, tmp = d, dst = batchTriangles.dst x\<rparr>]\<rparr>)))))"

definition batchTriangles_Update :: "ref \<Rightarrow> ref \<Rightarrow> (unit, ('m, 'v, 'f) store) M" where
  "batchTriangles_Update bt t = bnd (deref btris bt) (\<lambda>x. Triangles_Update (tri x) t)"

definition batchTriangles_Copy :: "ref \<Rightarrow> (ref, ('m, 'v, 'f) store) M" where
  "batchTriangles_Copy bt =
     bnd (deref btris bt) (\<lambda>x.
     bnd (Triangles_Copy (tri x)) (\<lambda>c.
     bnd (Triangles_Copy (tmp x)) (\<lambda>d.
       (\<lambda>s. (Inr (length (btris s)),
              s\<lparr>btris := btris s @ [\<lparr>tri = c, tmp = d, dst = batchTriangles.dst x\<rparr>]\<rparr>)))))"

text \<open>
  One iteration of the loop of \<open>draw\<close>: vertex \<open>i\<close> of the scratch buffer gets its
  position projected by the batch's matrix and its colour multiplied by the batch's mask.
  \<open>Matrix.Project\<close> is not in the sources and is the parameter \<open>prj\<close>.
\<close>

definition draw_step ::
  "('m \<Rightarrow> 'v \<Rightarrow> 'v) \<Rightarrow> ref \<Rightarrow> nat \<Rightarrow> (unit, ('m, 'v, 'f::times) store) M" where
  "draw_step prj bt i =
     bnd (deref btris bt) (\<lambda>x.
     bnd (deref bufs (tmp x)) (\<lambda>u.
     bnd (deref arrays (arr u)) (\<lambda>xs.
       if i < len u \<and> off u + i < length xs then
         bnd (deref batches (batchTriangles.dst x)) (\<lambda>ba.
           (\<lambda>s. (Inr (), s\<lparr>arrays := (arrays s)[arr u := xs[off u + i :=
              (xs ! (off u + i))
                \<lparr>Position := prj (mat ba) (Position (xs ! (off u + i))),
                 Color := Mul (col ba) (Color (xs ! (off u + i)))\<rparr>]]\<rparr>)))
       else panic OutOfRange)))"

fun draw_loop ::
  "('m \<Rightarrow> 'v \<Rightarrow> 'v) \<Rightarrow> ref \<Rightarrow> nat list \<Rightarrow> (unit, ('m, 'v, 'f::times) store) M" where
  "draw_loop prj bt [] = ret ()"
| "draw_loop prj bt (i # is) = bnd (draw_step prj bt i) (\<lambda>_. draw_loop prj bt is)"

definition batchTriangles_draw ::
  "('m \<Rightarrow> 'v \<Rightarrow> 'v) \<Rightarrow> ('v, 'f) vertex \<Rightarrow> ref \<Rightarrow> ref option
     \<Rightarrow> (unit, ('m, 'v, 'f::times) store) M" where
  "batchTriangles_draw prj dv bt bp =
     bnd (deref btris bt) (\<lambda>x.
     bnd (Triangles_Update (tmp x) (tri x)) (\<lambda>_.
     bnd (deref bufs (tmp x)) (\<lambda>u.
     bnd (draw_loop prj bt [0..<len u]) (\<lambda>_.
     bnd (deref batches (batchTriangles.dst x)) (\<lambda>ba.
     bnd (Triangles_Len (Triangles (cont ba))) (\<lambda>n.
     bnd (Triangles_Len (tri x)) (\<lambda>k.
     bnd (Triangles_SetLen dv (Triangles (cont ba)) (n + k)) (\<lambda>_.
     bnd (Triangles_Len (Triangles (cont ba))) (\<lambda>n1.
     bnd (Triangles_Len (tri x)) (\<lambda>k1.
     bnd (Triangles_Len (Triangles (cont ba))) (\<lambda>n2.
     bnd (Triangles_Slice (Triangles (cont ba)) (n1 - k1) n2) (\<lambda>added.
     bnd (Triangles_Update added (tri x)) (\<lambda>_.
     bnd (Triangles_Update added (tmp x)) (\<lambda>_.
     Batch_Dirty (batchTriangles.dst x)))))))))))))))"

definition batchTriangles_Draw ::
  "('m \<Rightarrow> 'v \<Rightarrow> 'v) \<Rightarrow> ('v, 'f) vertex \<Rightarrow> ref \<Rightarrow> (unit, ('m, 'v, 'f::times) store) M" where
  "batchTriangles_Draw prj dv bt = batchTriangles_draw prj dv bt None"

section \<open>The image proxy\<close>

definition batchPicture_Draw ::
  "('m \<Rightarrow> 'v \<Rightarrow> 'v) \<Rightarrow> ('v, 'f) vertex \<Rightarrow> ref \<Rightarrow> TargetTriangles
     \<Rightarrow> (unit, ('m, 'v, 'f::times) store) M" where
  "batchPicture_Draw prj dv bp t =
     (case t of
        TTbatch bt \<Rightarrow>
          bnd (deref bpics bp) (\<lambda>p.
          bnd (deref btris bt) (\<lambda>x.
            if batchPicture.dst p \<noteq> batchTriangles.dst x then panic BatchMismatch
            else batchTriangles_draw prj dv bt (Some bp)))
      | _ \<Rightarrow> panic TypeAssertion)"

section \<open>Observations\<close>

definition in_bounds :: "('m, 'v, 'f) store \<Rightarrow> buffer \<Rightarrow> bool" where
  "in_bounds s b = (case nth_opt (arrays s) (arr b) of None \<Rightarrow> False
     | Some xs \<Rightarrow> off b + len b \<le> length xs)"

definition baked :: "('m \<Rightarrow> 'v \<Rightarrow> 'v) \<Rightarrow> 'm \<Rightarrow> ('f::times) RGBA \<Rightarrow> ('v, 'f) vertex \<Rightarrow> ('v, 'f) vertex" where
  "baked prj m c v = v\<lparr>Position := prj m (Position v), Color := Mul c (Color v)\<rparr>"

definition map_range :: "nat \<Rightarrow> nat \<Rightarrow> ('a \<Rightarrow> 'a) \<Rightarrow> 'a list \<Rightarrow> 'a list" where
  "map_range k n f xs = take k xs @ map f (take n (drop k xs)) @ drop (k + n) xs"

definition merged ::
  "('m \<Rightarrow> 'v \<Rightarrow> 'v) \<Rightarrow> 'm \<Rightarrow> ('f::times) RGBA \<Rightarrow> property set \<Rightarrow> property set \<Rightarrow> property set
     \<Rightarrow> ('v, 'f) vertex \<Rightarrow> ('v, 'f) vertex list \<Rightarrow> ('v, 'f) vertex list \<Rightarrow> ('v, 'f) vertex list" where
  "merged prj m c pt pu pc dv tv uv =
     map2 (put_fields (pc \<inter> pu))
       (map (baked prj m c) (map2 (put_fields (pu \<inter> pt)) tv uv))
       (map2 (put_fields (pc \<inter> pt)) tv (replicate (length tv) dv))"

definition contents :: "('m, 'v, 'f) store \<Rightarrow> ref \<Rightarrow> ('v, 'f) vertex list" where
  "contents s h = (case nth_opt (bufs s) h of None \<Rightarrow> [] | Some b \<Rightarrow> view s b)"

definition supports :: "('m, 'v, 'f) store \<Rightarrow> ref \<Rightarrow> property set" where
  "supports s h = (case nth_opt (bufs s) h of None \<Rightarrow> {} | Some b \<Rightarrow> props b)"

definition container :: "('m, 'v, 'f) store \<Rightarrow> ref \<Rightarrow> ('v, 'f) vertex list" where
  "container s b = (case nth_opt (batches s) b of None \<Rightarrow> []
     | Some x \<Rightarrow> contents s (Triangles (cont x)))"

definition is_dirty :: "('m, 'v, 'f) store \<Rightarrow> ref \<Rightarrow> bool" where
  "is_dirty s b = (case nth_opt (batches s) b of None \<Rightarrow> False | Some x \<Rightarrow> dirty (cont x))"

definition mergeable :: "('m, 'v, 'f) store \<Rightarrow> ref \<Rightarrow> bool" where
  "mergeable s bt =
     (case nth_opt (btris s) bt of None \<Rightarrow> False | Some x \<Rightarrow>
     (case nth_opt (batches s) (batchTriangles.dst x) of None \<Rightarrow> False | Some ba \<Rightarrow>
     (case nth_opt (bufs s) (tri x) of None \<Rightarrow> False | Some T \<Rightarrow>
     (case nth_opt (bufs s) (tmp x) of None \<Rightarrow> False | Some U \<Rightarrow>
     (case nth_opt (bufs s) (Triangles (cont ba)) of None \<Rightarrow> False | Some C \<Rightarrow>
        in_bounds s T \<and> in_bounds s U \<and> in_bounds s C \<and> len T = len U \<and>
        props U = all_fields \<and> arr T \<noteq> arr U \<and> arr C \<noteq> arr T \<and> arr C \<noteq> arr U)))))"

definition merge_of ::
  "('m \<Rightarrow> 'v \<Rightarrow> 'v) \<Rightarrow> ('v, 'f) vertex \<Rightarrow> ('m, 'v, 'f::times) store \<Rightarrow> ref \<Rightarrow> ('v, 'f) vertex list" where
  "merge_of prj dv s bt =
     (case nth_opt (btris s) bt of None \<Rightarrow> [] | Some x \<Rightarrow>
     (case nth_opt (batches s) (batchTriangles.dst x) of None \<Rightarrow> [] | Some ba \<Rightarrow>
        merged prj (mat ba) (col ba) (supports s (tri x)) (supports s (tmp x))
          (supports s (Triangles (cont ba))) dv (contents s (tri x)) (contents s (tmp x))))"


section \<open>Example stores\<close>

text \<open>
  Concrete stores for evaluating the operations: positions and colour components are
  integers, a matrix is an integer factor and projection is multiplication by it.
\<close>

definition ex_prj :: "int \<Rightarrow> int \<Rightarrow> int" where
  "ex_prj m v = m * v"

definition ex_dv :: "(int, int) vertex" where
  "ex_dv = \<lparr>Position = 0, Color = white, TexCoord = -1\<rparr>"

definition ex_vertex :: "int \<Rightarrow> int \<Rightarrow> int \<Rightarrow> (int, int) vertex" where
  "ex_vertex p c t = \<lparr>Position = p, Color = \<lparr>R = c, G = c, B = c, A = 1\<rparr>, TexCoord = t\<rparr>"

definition ex_batch :: "ref \<Rightarrow> Picture \<Rightarrow> int \<Rightarrow> int \<Rightarrow> (int, int) Batch" where
  "ex_batch c p m k =
     \<lparr>cont = \<lparr>Triangles = c, Picture = p, dirty = False\<rparr>, mat = m,
      col = \<lparr>R = k, G = k, B = k, A = 1\<rparr>\<rparr>"

definition ex_buf :: "ref \<Rightarrow> nat \<Rightarrow> buffer" where
  "ex_buf a n = \<lparr>arr = a, off = 0, len = n, props = all_fields\<rparr>"

text \<open>
  Two batches over two empty containers (buffers 0 and 1), with pictures 7 and 8. Batch 0
  has the geometry proxies 0 (buffers 2 and 3) and 2 (buffers 7 and 8) and the image
  proxy 0; batch 1 has the geometry proxy 1 (buffers 4 and 5). Buffer 6 is a caller's
  buffer of three vertices.
\<close>

definition ex_store :: "(int, int, int) store" where
  "ex_store =
     \<lparr>arrays = [[], [], [ex_vertex 1 2 3, ex_vertex 4 5 6, ex_vertex 7 8 9],
                 [ex_dv, ex_dv, ex_dv], [ex_vertex 5 5 5], [ex_dv],
                 [ex_vertex 1 1 1, ex_vertex 2 2 2, ex_vertex 3 3 3],
                 [ex_vertex 6 7 8], [ex_dv]],
      bufs = [ex_buf 0 0, ex_buf 1 0, ex_buf 2 3, ex_buf 3 3, ex_buf 4 1, ex_buf 5 1,
              ex_buf 6 3, ex_buf 7 1, ex_buf 8 1],
      batches = [ex_batch 0 (PicPtr 7) 2 3, ex_batch 1 (PicPtr 8) 3 1],
      btris = [\<lparr>tri = 2, tmp = 3, dst = 0\<rparr>, \<lparr>tri = 4, tmp = 5, dst = 1\<rparr>,
               \<lparr>tri = 7, tmp = 8, dst = 0\<rparr>],
      bpics = [\<lparr>pic = PicPtr 7, dst = 0\<rparr>]\<rparr>"

text \<open>
  The same store after use: the container of batch 0 holds nine vertices and the scratch
  buffer of proxy 0 holds what an earlier merge left there.
\<close>

definition ex_used :: "(int, int, int) store" where
  "ex_used = ex_store
     \<lparr>arrays := (arrays ex_store)
         [0 := replicate 9 (ex_vertex 1 1 1),
          3 := [ex_vertex 2 6 3, ex_vertex 8 15 6, ex_vertex 14 24 9]],
      bufs := (bufs ex_store)[0 := ex_buf 0 9]\<rparr>"

text \<open>
  The stores reached from \<open>ex_store\<close> by merging proxy 0, setting the matrix and the
  colour mask of batch 0, and merging proxy 2; and the store reached from \<open>ex_used\<close>
  by clearing batch 0.
\<close>

definition ex_s1 :: "(int, int, int) store" where
  "ex_s1 = snd (batchTriangles_draw ex_prj ex_dv 0 None ex_store)"

definition ex_s2 :: "(int, int, int) store" where
  "ex_s2 = snd (Batch_SetMatrix 0 5 ex_s1)"

definition ex_s3 :: "(int, int, int) store" where
  "ex_s3 = snd (Batch_SetColorMask (\<lambda>_::unit. white) 0 None ex_s2)"

definition ex_s4 :: "(int, int, int) store" where
  "ex_s4 = snd (batchTriangles_draw ex_prj ex_dv 2 None ex_s3)"

definition ex_cleared :: "(int, int, int) store" where
  "ex_cleared = snd (Batch_Clear ex_dv 0 ex_used)"

section \<open>Sequences of operations\<close>

text \<open>
  What a client can do with the batches and proxies of a store, one constructor for each
  method of \<open>Batch\<close>, \<open>batchTriangles\<close> and \<open>batchPicture\<close>. A call that
  panics is recovered by the client: \<open>exec\<close> continues from the store the panic left.
\<close>

datatype ('m, 'f, 'o) op =
    OpDirty ref | OpClear ref | OpSetMatrix ref 'm | OpSetColorMask ref "('f, 'o) Color option"
  | OpMakeTriangles ref ref | OpMakePicture ref Picture
  | OpLen ref | OpSetLen ref int | OpSlice ref int int | OpUpdate ref ref | OpCopy ref
  | OpDraw ref | OpPictureDraw ref TargetTriangles

fun exec ::
  "('o \<Rightarrow> 'f RGBA) \<Rightarrow> ('m \<Rightarrow> 'v \<Rightarrow> 'v) \<Rightarrow> ('v, 'f) vertex \<Rightarrow> ('m, 'f, 'o) op
     \<Rightarrow> ('m, 'v, 'f::{one,times}) store \<Rightarrow> ('m, 'v, 'f) store" where
  "exec conv prj dv (OpDirty b) s = snd (Batch_Dirty b s)"
| "exec conv prj dv (OpClear b) s = snd (Batch_Clear dv b s)"
| "exec conv prj dv (OpSetMatrix b m) s = snd (Batch_SetMatrix b m s)"
| "exec conv prj dv (OpSetColorMask b c) s = snd (Batch_SetColorMask conv b c s)"
| "exec conv prj dv (OpMakeTriangles b t) s = snd (Batch_MakeTriangles dv b t s)"
| "exec conv prj dv (OpMakePicture b p) s = snd (Batch_MakePicture b p s)"
| "exec conv prj dv (OpLen bt) s = snd (batchTriangles_Len bt s)"
| "exec conv prj dv (OpSetLen bt n) s = snd (batchTriangles_SetLen dv bt n s)"
| "exec conv prj dv (OpSlice bt i j) s = snd (batchTriangles_Slice bt i j s)"
| "exec conv prj dv (OpUpdate bt t) s = snd (batchTriangles_Update bt t s)"
| "exec conv prj dv (OpCopy bt) s = snd (batchTriangles_Copy bt s)"
| "exec conv prj dv (OpDraw bt) s = snd (batchTriangles_Draw prj dv bt s)"
| "exec conv prj dv (OpPictureDraw bp t) s = snd (batchPicture_Draw prj dv bp t s)"

definition run ::
  "('o \<Rightarrow> 'f RGBA) \<Rightarrow> ('m \<Rightarrow> 'v \<Rightarrow> 'v) \<Rightarrow> ('v, 'f) vertex \<Rightarrow> ('m, 'f, 'o) op list
     \<Rightarrow> ('m, 'v, 'f::{one,times}) store \<Rightarrow> ('m, 'v, 'f) store" where
  "run conv prj dv ops s = fold (exec conv prj dv) ops s"

text \<open>
  \<open>hoare P m Q E\<close>: from a store satisfying \<open>P\<close>, the call \<open>m\<close> returns in a store
  satisfying \<open>Q\<close> of its result, or panics in a store satisfying \<open>E\<close>.
\<close>

definition hoare ::
  "('s \<Rightarrow> bool) \<Rightarrow> ('a, 's) M \<Rightarrow> ('a \<Rightarrow> 's \<Rightarrow> bool) \<Rightarrow> ('s \<Rightarrow> bool) \<Rightarrow> bool" where
  "hoare P m Q E = (\<forall>s. P s \<longrightarrow> (case m s of (Inl e, s') \<Rightarrow> E s' | (Inr x, s') \<Rightarrow> Q x s'))"


text \<open>
  A store is well formed when every buffer lies within its backing array, the clone and
  the scratch buffer of every proxy have the same length, no buffer handle is held by two
  proxy fields (\<open>tri\<close> and \<open>tmp\<close> are private to the proxy that \<open>MakeTriangles\<close>,
  \<open>Slice\<close> or \<open>Copy\<close> created), and the container of every batch is a buffer that
  no proxy holds. \<open>wfx fs\<close> adds handles in use by the running call.
\<close>

definition proxy_handles :: "('m, 'v, 'f) store \<Rightarrow> ref list" where
  "proxy_handles s = concat (map (\<lambda>x. [tri x, tmp x]) (btris s))"

definition lockstep :: "('m, 'v, 'f) store \<Rightarrow> batchTriangles \<Rightarrow> bool" where
  "lockstep s x = (tri x < length (bufs s) \<and> tmp x < length (bufs s) \<and>
     len (bufs s ! tri x) = len (bufs s ! tmp x))"

definition wellformed :: "('m, 'v, 'f) store \<Rightarrow> bool" where
  "wellformed s = (list_all (in_bounds s) (bufs s) \<and> list_all (lockstep s) (btris s) \<and>
     distinct (proxy_handles s) \<and>
     list_all (\<lambda>b. Triangles (cont b) < length (bufs s) \<and>
        Triangles (cont b) \<notin> set (proxy_handles s)) (batches s))"

definition wfx :: "ref list \<Rightarrow> ('m, 'v, 'f) store \<Rightarrow> bool" where
  "wfx fs s = (wellformed s \<and> list_all (\<lambda>h. h < length (bufs s) \<and> h \<notin> set (proxy_handles s)) fs)"

text \<open>
  The caller's buffer \<open>t\<close>, with record \<open>b\<close> over the array \<open>xs\<close>, is kept while
  every buffer a proxy or a batch holds, and every handle in use by the running call, is
  another handle over another backing array. \<open>apart s t\<close> says so of the store alone.
\<close>

definition away :: "('m, 'v, 'f) store \<Rightarrow> ref \<Rightarrow> ref \<Rightarrow> ref \<Rightarrow> bool" where
  "away s t a h = (h < length (bufs s) \<and> h \<noteq> t \<and> arr (bufs s ! h) \<noteq> a)"

definition kept ::
  "ref \<Rightarrow> buffer \<Rightarrow> ('v, 'f) vertex list \<Rightarrow> ref list \<Rightarrow> ('m, 'v, 'f) store \<Rightarrow> bool" where
  "kept t b xs hs s =
     (nth_opt (bufs s) t = Some b \<and> nth_opt (arrays s) (arr b) = Some xs \<and>
      list_all (\<lambda>x. away s t (arr b) (tri x) \<and> away s t (arr b) (tmp x)) (btris s) \<and>
      list_all (\<lambda>c. away s t (arr b) (Triangles (cont c))) (batches s) \<and>
      list_all (away s t (arr b)) hs)"

definition apart :: "('m, 'v, 'f) store \<Rightarrow> ref \<Rightarrow> bool" where
  "apart s t = (case nth_opt (bufs s) t of None \<Rightarrow> False | Some b \<Rightarrow>
     (case nth_opt (arrays s) (arr b) of None \<Rightarrow> False | Some xs \<Rightarrow> kept t b xs [] s))"






section \<open>Properties\<close>

lemmas monad_defs = bnd_def ret_def panic_def deref_def nth_opt_def

lemmas ex_defs = ex_store_def ex_used_def ex_s1_def ex_s2_def ex_s3_def ex_s4_def
  ex_cleared_def ex_batch_def ex_buf_def ex_vertex_def ex_dv_def
  ex_prj_def white_def all_fields_def

lemma length_write_at: "k + length ys \<le> length xs \<Longrightarrow> length (write_at k ys xs) = length xs"
  by (simp add: write_at_def)

lemma seg_write_at: "k + length ys \<le> length xs \<Longrightarrow> take (length ys) (drop k (write_at k ys xs)) = ys"
  by (simp add: write_at_def)

lemma seg_write_at_tail:
  "k + n + length ys \<le> length xs \<Longrightarrow>
   take (n + length ys) (drop k (write_at (k + n) ys xs)) = take n (drop k xs) @ ys"
  by (cases ys) (auto simp: write_at_def min_def drop_take)

lemma write_at_twice:
  "length zs = length ys \<Longrightarrow> k + length ys \<le> length xs \<Longrightarrow>
   write_at k zs (write_at k ys xs) = write_at k zs xs"
  by (simp add: write_at_def)

lemma length_map_range: "length (map_range k n f xs) = length xs"
  by (simp add: map_range_def)

lemma map_range_0: "map_range k 0 f xs = xs"
  by (simp add: map_range_def)

lemma map_range_Suc:
  assumes "k + n < length xs"
  shows "(map_range k n f xs)[k + n := f (map_range k n f xs ! (k + n))] = map_range k (Suc n) f xs"
proof (rule nth_equalityI)
  show "length ((map_range k n f xs)[k + n := f (map_range k n f xs ! (k + n))]) = length (map_range k (Suc n) f xs)"
    by (simp add: length_map_range)
next
  fix i assume "i < length ((map_range k n f xs)[k + n := f (map_range k n f xs ! (k + n))])"
  then have i: "i < length xs" by (simp add: length_map_range)
  show "(map_range k n f xs)[k + n := f (map_range k n f xs ! (k + n))] ! i = map_range k (Suc n) f xs ! i"
    using i assms
    by (auto simp: map_range_def nth_append nth_list_update min_def)
qed

lemma map_range_write_at:
  "length ys = n \<Longrightarrow> k + n \<le> length xs \<Longrightarrow> map_range k n f (write_at k ys xs) = write_at k (map f ys) xs"
  by (simp add: map_range_def write_at_def)

lemma nth_opt_Some: "nth_opt xs i = Some x \<longleftrightarrow> i < length xs \<and> xs ! i = x"
  by (auto simp: nth_opt_def)

lemma Triangles_Len_eq:
  "nth_opt (bufs s) h = Some b \<Longrightarrow> Triangles_Len h s = (Inr (int (len b)), s)"
  by (simp add: Triangles_Len_def bnd_def ret_def deref_def)

lemma Triangles_Update_eq:
  assumes "nth_opt (bufs s) h = Some b" and "nth_opt (bufs s) t = Some c"
    and "len b = len c"
    and "nth_opt (arrays s) (arr b) = Some xs" and "off b + len b \<le> length xs"
    and "in_bounds s c"
  shows "Triangles_Update h t s = (Inr (), s\<lparr>arrays := (arrays s)[arr b :=
           write_at (off b) (map2 (put_fields (props b \<inter> props c)) (view s c) (view s b)) xs]\<rparr>)"
  using assms
  by (auto simp: Triangles_Update_def bnd_def ret_def deref_def panic_def in_bounds_def
      split: option.splits)

lemma Triangles_Slice_eq:
  assumes "nth_opt (bufs s) h = Some b" and "0 \<le> i" and "i \<le> j" and "j \<le> int (len b)"
  shows "Triangles_Slice h i j s = (Inr (length (bufs s)),
           s\<lparr>bufs := bufs s @ [b\<lparr>off := off b + nat i, len := nat (j - i)\<rparr>]\<rparr>)"
  using assms by (simp add: Triangles_Slice_def bnd_def deref_def)

lemma Batch_Dirty_eq:
  assumes "nth_opt (batches s) b = Some x"
  shows "Batch_Dirty b s = (Inr (), s\<lparr>batches := (batches s)[b := x\<lparr>cont := (cont x)\<lparr>dirty := True\<rparr>\<rparr>]\<rparr>)"
  using assms by (simp add: Batch_Dirty_def bnd_def deref_def Drawer_Dirty_def)

lemma draw_step_eq:
  assumes "nth_opt (btris s) bt = Some x" and "nth_opt (bufs s) (tmp x) = Some u"
    and "nth_opt (arrays s) (arr u) = Some xs" and "i < len u" and "off u + i < length xs"
    and "nth_opt (batches s) (batchTriangles.dst x) = Some ba"
  shows "draw_step prj bt i s = (Inr (), s\<lparr>arrays := (arrays s)[arr u :=
            xs[off u + i := baked prj (mat ba) (col ba) (xs ! (off u + i))]]\<rparr>)"
  using assms by (simp add: draw_step_def bnd_def deref_def baked_def)

lemma draw_loop_append:
  "draw_loop prj bt (is @ js) = bnd (draw_loop prj bt is) (\<lambda>_. draw_loop prj bt js)"
  by (induction "is") (auto simp: bnd_def ret_def fun_eq_iff split: prod.splits sum.splits)

lemma draw_loop_eq:
  assumes "nth_opt (btris s) bt = Some x" and "nth_opt (bufs s) (tmp x) = Some u"
    and "nth_opt (arrays s) (arr u) = Some xs" and "off u + len u \<le> length xs"
    and "nth_opt (batches s) (batchTriangles.dst x) = Some ba"
    and "n \<le> len u"
  shows "draw_loop prj bt [0..<n] s = (Inr (), s\<lparr>arrays := (arrays s)[arr u :=
            map_range (off u) n (baked prj (mat ba) (col ba)) xs]\<rparr>)"
  using assms(6)
proof (induction n)
  case 0
  have "(arrays s)[arr u := xs] = arrays s"
    using assms(3) by (simp add: nth_opt_Some list_update_same_conv)
  then show ?case by (simp add: ret_def map_range_0)
next
  case (Suc n)
  let ?f = "baked prj (mat ba) (col ba)"
  let ?ys = "map_range (off u) n ?f xs"
  let ?s1 = "s\<lparr>arrays := (arrays s)[arr u := ?ys]\<rparr>"
  have 1: "draw_loop prj bt [0..<n] s = (Inr (), ?s1)" using Suc by simp
  have a: "arr u < length (arrays s)" using assms(3) by (simp add: nth_opt_Some)
  have 2: "draw_step prj bt n ?s1 = (Inr (), ?s1\<lparr>arrays := (arrays ?s1)[arr u :=
            ?ys[off u + n := ?f (?ys ! (off u + n))]]\<rparr>)"
    apply (rule draw_step_eq [where x = x and u = u and ba = ba])
    using assms Suc.prems a by (simp_all add: nth_opt_Some length_map_range)
  have 3: "?ys[off u + n := ?f (?ys ! (off u + n))] = map_range (off u) (Suc n) ?f xs"
    apply (rule map_range_Suc) using assms Suc.prems by simp
  show ?case
    by (simp add: draw_loop_append bnd_def 1 2 3 ret_def)
qed

lemma view_eq: "nth_opt (arrays s) (arr b) = Some xs \<Longrightarrow> view s b = take (len b) (drop (off b) xs)"
  by (simp add: view_def)

lemma Triangles_SetLen_result:
  assumes h: "nth_opt (bufs s) h = Some b" and ib: "in_bounds s b" and n: "0 \<le> n"
  obtains s' b' where "Triangles_SetLen dv h n s = (Inr (), s')"
    and "btris s' = btris s" and "batches s' = batches s" and "bpics s' = bpics s"
    and "bufs s' = (bufs s)[h := b']" and "len b' = nat n" and "props b' = props b"
    and "arr b' = arr b \<or> arr b' = length (arrays s)"
    and "in_bounds s' b'"
    and "view s' b' = take (nat n) (view s b) @ replicate (nat n - len b) dv"
    and "length (arrays s) \<le> length (arrays s')"
    and "\<forall>a<length (arrays s). a \<noteq> arr b \<longrightarrow> arrays s' ! a = arrays s ! a"
    and "\<forall>a<length (arrays s). length (arrays s' ! a) = length (arrays s ! a)"
proof -
  from ib obtain xs where xs: "nth_opt (arrays s) (arr b) = Some xs"
    and le: "off b + len b \<le> length xs"
    by (auto simp: in_bounds_def split: option.splits)
  have a: "arr b < length (arrays s)" "arrays s ! arr b = xs"
    using xs by (simp_all add: nth_opt_Some)
  consider (shrink) "nat n \<le> len b"
    | (inplace) "len b < nat n" "off b + nat n \<le> length xs"
    | (fresh) "len b < nat n" "length xs < off b + nat n"
    by linarith
  then show thesis
  proof cases
    case shrink
    let ?b = "b\<lparr>len := nat n\<rparr>"
    let ?s = "s\<lparr>bufs := (bufs s)[h := ?b]\<rparr>"
    show thesis
    proof (rule that [of ?s ?b])
      show "Triangles_SetLen dv h n s = (Inr (), ?s)"
        using h n shrink by (simp add: Triangles_SetLen_def bnd_def deref_def)
      show "in_bounds ?s ?b" using xs le shrink by (simp add: in_bounds_def)
      show "view ?s ?b = take (nat n) (view s b) @ replicate (nat n - len b) dv"
        using xs shrink by (simp add: view_def min_def)
    qed simp_all
  next
    case inplace
    let ?b = "b\<lparr>len := nat n\<rparr>"
    let ?ys = "write_at (off b + len b) (replicate (nat n - len b) dv) xs"
    let ?s = "s\<lparr>arrays := (arrays s)[arr b := ?ys], bufs := (bufs s)[h := ?b]\<rparr>"
    have ly: "length ?ys = length xs"
      using inplace by (simp add: length_write_at)
    show thesis
    proof (rule that [of ?s ?b])
      show "Triangles_SetLen dv h n s = (Inr (), ?s)"
        using h n inplace xs by (simp add: Triangles_SetLen_def bnd_def deref_def)
      show "in_bounds ?s ?b" using a inplace ly by (simp add: in_bounds_def nth_opt_def)
      have "take (nat n) (drop (off b) ?ys)
          = take (len b) (drop (off b) xs) @ replicate (nat n - len b) dv"
        using seg_write_at_tail [of "off b" "len b" "replicate (nat n - len b) dv" xs] inplace
        by simp
      then show "view ?s ?b = take (nat n) (view s b) @ replicate (nat n - len b) dv"
        using a inplace by (simp add: view_def nth_opt_def)
      show "\<forall>a<length (arrays s). length (arrays ?s ! a) = length (arrays s ! a)"
        using a ly by (simp add: nth_list_update)
    qed simp_all
  next
    case fresh
    let ?b = "b\<lparr>arr := length (arrays s), off := 0, len := nat n\<rparr>"
    let ?ys = "take (len b) (drop (off b) xs) @ replicate (nat n - len b) dv"
    let ?s = "s\<lparr>arrays := arrays s @ [?ys], bufs := (bufs s)[h := ?b]\<rparr>"
    show thesis
    proof (rule that [of ?s ?b])
      show "Triangles_SetLen dv h n s = (Inr (), ?s)"
        using h n fresh xs by (simp add: Triangles_SetLen_def bnd_def deref_def)
      show "in_bounds ?s ?b" using le fresh by (simp add: in_bounds_def nth_opt_def)
      show "view ?s ?b = take (nat n) (view s b) @ replicate (nat n - len b) dv"
        using a fresh le by (simp add: view_def nth_opt_def)
    qed (simp_all add: nth_append)
  qed
qed

lemma in_boundsD:
  assumes "in_bounds s b"
  obtains xs where "nth_opt (arrays s) (arr b) = Some xs" and "off b + len b \<le> length xs"
    and "arr b < length (arrays s)" and "arrays s ! arr b = xs" and "length (view s b) = len b"
  using assms by (auto simp: in_bounds_def view_def nth_opt_def split: option.splits if_splits)

lemma in_boundsI:
  "arr b < length (arrays s) \<Longrightarrow> off b + len b \<le> length (arrays s ! arr b) \<Longrightarrow> in_bounds s b"
  by (simp add: in_bounds_def nth_opt_def)

lemma view_nth: "arr b < length (arrays s) \<Longrightarrow> view s b = take (len b) (drop (off b) (arrays s ! arr b))"
  by (simp add: view_def nth_opt_def)

lemma view_arrays_upd_other:
  "a \<noteq> arr b \<Longrightarrow> view (s\<lparr>arrays := (arrays s)[a := ys]\<rparr>) b = view s b"
  by (simp add: view_def nth_opt_def)

lemma view_bufs_upd: "view (s\<lparr>bufs := bs\<rparr>) b = view s b"
  by (simp add: view_def)

lemma draw_result:
  assumes bt: "nth_opt (btris s) bt = Some x"
    and T: "nth_opt (bufs s) (tri x) = Some T" and U: "nth_opt (bufs s) (tmp x) = Some U"
    and ba: "nth_opt (batches s) (batchTriangles.dst x) = Some ba"
    and C: "nth_opt (bufs s) (Triangles (cont ba)) = Some C"
    and ibT: "in_bounds s T" and ibU: "in_bounds s U" and ibC: "in_bounds s C"
    and lenTU: "len T = len U"
    and d1: "arr T \<noteq> arr U" and d2: "arr C \<noteq> arr T" and d3: "arr C \<noteq> arr U"
  obtains s' C' where "batchTriangles_draw prj dv bt bp s = (Inr (), s')"
    and "btris s' = btris s" and "bpics s' = bpics s"
    and "batches s' = (batches s)[batchTriangles.dst x := ba\<lparr>cont := (cont ba)\<lparr>dirty := True\<rparr>\<rparr>]"
    and "bufs s' = (bufs s)[Triangles (cont ba) := C'] @ [C'\<lparr>off := off C' + len C, len := len T\<rparr>]"
    and "len C' = len C + len T" and "props C' = props C"
    and "arr C' = arr C \<or> arr C' = length (arrays s)"
    and "in_bounds s' C'"
    and "view s' C' = view s C @
          merged prj (mat ba) (col ba) (props T) (props U) (props C) dv (view s T) (view s U)"
    and "length (arrays s) \<le> length (arrays s')"
    and "\<forall>a<length (arrays s). a \<noteq> arr C \<and> a \<noteq> arr U \<longrightarrow> arrays s' ! a = arrays s ! a"
    and "\<forall>a<length (arrays s). length (arrays s' ! a) = length (arrays s ! a)"
proof -
  let ?ch = "Triangles (cont ba)"
  let ?f = "baked prj (mat ba) (col ba)"
  from ibT obtain xsT where xsT: "nth_opt (arrays s) (arr T) = Some xsT"
    "off T + len T \<le> length xsT" "arr T < length (arrays s)" "arrays s ! arr T = xsT"
    "length (view s T) = len T" by (rule in_boundsD)
  from ibU obtain xsU where xsU: "nth_opt (arrays s) (arr U) = Some xsU"
    "off U + len U \<le> length xsU" "arr U < length (arrays s)" "arrays s ! arr U = xsU"
    "length (view s U) = len U" by (rule in_boundsD)
  from ibC obtain xsC where xsC: "nth_opt (arrays s) (arr C) = Some xsC"
    "off C + len C \<le> length xsC" "arr C < length (arrays s)" "arrays s ! arr C = xsC"
    "length (view s C) = len C" by (rule in_boundsD)
  have hT: "tri x < length (bufs s)" "bufs s ! tri x = T" using T by (simp_all add: nth_opt_Some)
  have hU: "tmp x < length (bufs s)" "bufs s ! tmp x = U" using U by (simp_all add: nth_opt_Some)
  have hC: "?ch < length (bufs s)" "bufs s ! ?ch = C" using C by (simp_all add: nth_opt_Some)
  have neq: "tri x \<noteq> ?ch" "tmp x \<noteq> ?ch" using hT hU hC d2 d3 by auto
  \<comment> \<open>the scratch buffer takes the clone's values\<close>
  define tmp1 where "tmp1 = map2 (put_fields (props U \<inter> props T)) (view s T) (view s U)"
  define s1 where "s1 = s\<lparr>arrays := (arrays s)[arr U := write_at (off U) tmp1 xsU]\<rparr>"
  have l1: "length tmp1 = len U" using xsT xsU lenTU by (simp add: tmp1_def)
  have 1: "Triangles_Update (tmp x) (tri x) s = (Inr (), s1)"
    using Triangles_Update_eq [OF U T lenTU [symmetric] xsU(1) xsU(2) ibT]
    by (simp add: s1_def tmp1_def)
  \<comment> \<open>the loop transforms the scratch buffer\<close>
  define ys2 where "ys2 = write_at (off U) (map ?f tmp1) xsU"
  define s2 where "s2 = s\<lparr>arrays := (arrays s)[arr U := ys2]\<rparr>"
  have "draw_loop prj bt [0..<len U] s1 = (Inr (), s1\<lparr>arrays := (arrays s1)[arr U :=
            map_range (off U) (len U) ?f (write_at (off U) tmp1 xsU)]\<rparr>)"
    apply (rule draw_loop_eq [where x = x and u = U and ba = ba])
    using bt U ba xsU l1 by (simp_all add: nth_opt_Some s1_def length_write_at)
  moreover have "map_range (off U) (len U) ?f (write_at (off U) tmp1 xsU) = ys2"
    using l1 xsU by (simp add: map_range_write_at ys2_def)
  ultimately have 2: "draw_loop prj bt [0..<len U] s1 = (Inr (), s2)"
    by (simp add: s1_def s2_def)
  have ly2: "length ys2 = length xsU" using l1 xsU by (simp add: length_write_at ys2_def)
  have v2U: "take (len U) (drop (off U) ys2) = map ?f tmp1"
    using xsU l1 seg_write_at [of "off U" "map ?f tmp1" xsU] by (simp add: ys2_def)
  have f2: "btris s2 = btris s" "batches s2 = batches s" "bpics s2 = bpics s" "bufs s2 = bufs s"
    "length (arrays s2) = length (arrays s)"
    by (simp_all add: s2_def)
  have a2: "\<And>a. a \<noteq> arr U \<Longrightarrow> arrays s2 ! a = arrays s ! a" "arrays s2 ! arr U = ys2"
    using xsU(3) by (simp_all add: s2_def)
  have v2C: "view s2 C = view s C" using d3 by (simp add: s2_def view_arrays_upd_other)
  have ib2C: "in_bounds s2 C" using xsC d3 by (simp add: in_bounds_def nth_opt_def s2_def)
  \<comment> \<open>the container grows\<close>
  have C2: "nth_opt (bufs s2) ?ch = Some C" using C f2 by simp
  obtain s3 C' where 3: "Triangles_SetLen dv ?ch (int (len C) + int (len T)) s2 = (Inr (), s3)"
    and f3: "btris s3 = btris s2" "batches s3 = batches s2" "bpics s3 = bpics s2"
    and b3: "bufs s3 = (bufs s2)[?ch := C']"
    and c3: "len C' = nat (int (len C) + int (len T))" "props C' = props C"
      "arr C' = arr C \<or> arr C' = length (arrays s2)" "in_bounds s3 C'"
    and v3: "view s3 C' = take (nat (int (len C) + int (len T))) (view s2 C) @
              replicate (nat (int (len C) + int (len T)) - len C) dv"
    and a3: "length (arrays s2) \<le> length (arrays s3)"
      "\<forall>a<length (arrays s2). a \<noteq> arr C \<longrightarrow> arrays s3 ! a = arrays s2 ! a"
      "\<forall>a<length (arrays s2). length (arrays s3 ! a) = length (arrays s2 ! a)"
    using Triangles_SetLen_result [OF C2 ib2C, of "int (len C) + int (len T)" dv] by auto
  have lenC': "len C' = len C + len T" using c3(1) by (simp add: nat_add_distrib)
  have v3': "view s3 C' = view s C @ replicate (len T) dv"
    using v3 v2C xsC(5) by (simp add: nat_add_distrib)
  have arrC': "arr C' = arr C \<or> arr C' = length (arrays s)" using c3(3) f2 by simp
  have arrC'T: "arr C' \<noteq> arr T" using arrC' d2 xsT(3) by auto
  have arrC'U: "arr C' \<noteq> arr U" using arrC' d3 xsU(3) by auto
  from c3(4) obtain xs3 where xs3: "nth_opt (arrays s3) (arr C') = Some xs3"
    "off C' + len C' \<le> length xs3" "arr C' < length (arrays s3)" "arrays s3 ! arr C' = xs3"
    by (rule in_boundsD)
  have a3T: "arrays s3 ! arr T = xsT" using a3(2) a2(1) f2 xsT d1 d2 by simp
  have a3U: "arrays s3 ! arr U = ys2" using a3(2) a2(2) f2 xsU d3 by simp
  have lT3: "arr T < length (arrays s3)" using a3(1) f2 xsT(3) by simp
  have lU3: "arr U < length (arrays s3)" using a3(1) f2 xsU(3) by simp
  have h3T: "nth_opt (bufs s3) (tri x) = Some T" using b3 f2 hT neq by (simp add: nth_opt_def)
  have h3U: "nth_opt (bufs s3) (tmp x) = Some U" using b3 f2 hU neq by (simp add: nth_opt_def)
  have h3C: "nth_opt (bufs s3) ?ch = Some C'" using b3 f2 hC by (simp add: nth_opt_def)
  have v3T: "view s3 T = view s T" using a3T lT3 xsT by (simp add: view_nth)
  have v3U: "view s3 U = map ?f tmp1" using a3U lU3 v2U by (simp add: view_nth)
  \<comment> \<open>the tail of the container, as a view\<close>
  define A where "A = C'\<lparr>off := off C' + len C, len := len T\<rparr>"
  define s4 where "s4 = s3\<lparr>bufs := bufs s3 @ [A]\<rparr>"
  let ?added = "length (bufs s3)"
  have "Triangles_Slice ?ch (int (len C') - int (len T)) (int (len C')) s3
      = (Inr ?added, s3\<lparr>bufs := bufs s3 @ [C'\<lparr>off := off C' + nat (int (len C') - int (len T)),
           len := nat (int (len C') - (int (len C') - int (len T)))\<rparr>]\<rparr>)"
    using lenC' by (intro Triangles_Slice_eq [OF h3C]) simp_all
  then have 4: "Triangles_Slice ?ch (int (len C') - int (len T)) (int (len C')) s3 = (Inr ?added, s4)"
    using lenC' by (simp add: s4_def A_def)
  have pA: "arr A = arr C'" "off A = off C' + len C" "len A = len T" "props A = props C"
    using c3(2) by (simp_all add: A_def)
  have h4A: "nth_opt (bufs s4) ?added = Some A" by (simp add: nth_opt_def s4_def)
  have h4T: "nth_opt (bufs s4) (tri x) = Some T"
    using h3T by (simp add: nth_opt_def nth_append s4_def split: if_splits)
  have h4U: "nth_opt (bufs s4) (tmp x) = Some U"
    using h3U by (simp add: nth_opt_def nth_append s4_def split: if_splits)
  have a4: "arrays s4 = arrays s3" by (simp add: s4_def)
  have v4: "\<And>b. view s4 b = view s3 b" by (simp add: s4_def view_bufs_upd)
  have vA: "view s3 A = replicate (len T) dv"
  proof -
    have "view s3 A = take (len T) (drop (off C' + len C) xs3)" using xs3 pA by (simp add: view_nth)
    also have "\<dots> = drop (len C) (take (len C + len T) (drop (off C') xs3))"
      by (simp add: drop_take add.commute)
    also have "take (len C + len T) (drop (off C') xs3) = view s3 C'"
      using xs3 lenC' by (simp add: view_nth)
    finally show ?thesis using v3' xsC(5) by simp
  qed
  \<comment> \<open>the clone is written into the tail, then the scratch buffer over it\<close>
  define seg5 where "seg5 = map2 (put_fields (props C \<inter> props T)) (view s T) (replicate (len T) dv)"
  define s5 where "s5 = s4\<lparr>arrays := (arrays s4)[arr C' := write_at (off C' + len C) seg5 xs3]\<rparr>"
  have l5: "length seg5 = len T" using xsT(5) by (simp add: seg5_def)
  have lx5: "length (write_at (off C' + len C) seg5 xs3) = length xs3"
    using l5 xs3(2) lenC' by (simp add: length_write_at)
  have 5: "Triangles_Update ?added (tri x) s4 = (Inr (), s5)"
  proof -
    have ib: "in_bounds s4 T" using lT3 a3T xsT a4 by (simp add: in_bounds_def nth_opt_def)
    have ax: "nth_opt (arrays s4) (arr A) = Some xs3" using xs3 pA a4 by simp
    have "Triangles_Update ?added (tri x) s4 = (Inr (), s4\<lparr>arrays := (arrays s4)[arr A :=
        write_at (off A) (map2 (put_fields (props A \<inter> props T)) (view s4 T) (view s4 A)) xs3]\<rparr>)"
      apply (rule Triangles_Update_eq [OF h4A h4T _ ax _ ib])
      using pA xs3 lenC' by simp_all
    then show ?thesis using pA v4 v3T vA by (simp add: s5_def seg5_def)
  qed
  define seg6 where "seg6 = map2 (put_fields (props C \<inter> props U)) (map ?f tmp1) seg5"
  define xs6 where "xs6 = write_at (off C' + len C) seg6 xs3"
  define s6 where "s6 = s4\<lparr>arrays := (arrays s4)[arr C' := xs6]\<rparr>"
  have l6: "length seg6 = len T" using l5 l1 lenTU by (simp add: seg6_def)
  have 6: "Triangles_Update ?added (tmp x) s5 = (Inr (), s6)"
  proof -
    have ib: "in_bounds s5 U"
      using lU3 a3U arrC'U ly2 xsU a4 by (simp add: in_bounds_def nth_opt_def s5_def)
    have hA: "nth_opt (bufs s5) ?added = Some A" using h4A by (simp add: s5_def)
    have hU': "nth_opt (bufs s5) (tmp x) = Some U" using h4U by (simp add: s5_def)
    have ax: "nth_opt (arrays s5) (arr A) = Some (write_at (off C' + len C) seg5 xs3)"
      using xs3 pA a4 by (simp add: nth_opt_def s5_def)
    have vU: "view s5 U = map ?f tmp1"
      using v3U v4 arrC'U by (simp add: s5_def view_arrays_upd_other)
    have vA5: "view s5 A = seg5"
      using xs3 lenC' l5 pA a4 seg_write_at [of "off C' + len C" seg5 xs3]
      by (simp add: view_def nth_opt_def s5_def)
    have "Triangles_Update ?added (tmp x) s5 = (Inr (), s5\<lparr>arrays := (arrays s5)[arr A :=
        write_at (off A) (map2 (put_fields (props A \<inter> props U)) (view s5 U) (view s5 A))
          (write_at (off C' + len C) seg5 xs3)]\<rparr>)"
      apply (rule Triangles_Update_eq [OF hA hU' _ ax _ ib])
      using lenTU lx5 xs3 lenC' pA by simp_all
    moreover have "write_at (off C' + len C) seg6 (write_at (off C' + len C) seg5 xs3) = xs6"
      using l5 l6 xs3 lenC' by (simp add: write_at_twice xs6_def)
    ultimately show ?thesis using vU vA5 pA by (simp add: s5_def s6_def seg6_def)
  qed
  define s7 where "s7 = s6\<lparr>batches := (batches s6)[batchTriangles.dst x :=
      ba\<lparr>cont := (cont ba)\<lparr>dirty := True\<rparr>\<rparr>]\<rparr>"
  have b6: "nth_opt (batches s6) (batchTriangles.dst x) = Some ba"
    using ba f3 f2 by (simp add: s6_def s4_def)
  have 7: "Batch_Dirty (batchTriangles.dst x) s6 = (Inr (), s7)"
    using Batch_Dirty_eq [OF b6] by (simp add: s7_def)
  have run: "batchTriangles_draw prj dv bt bp s = (Inr (), s7)"
  proof -
    have r0: "deref btris bt s = (Inr x, s)" using bt by (simp add: deref_def)
    have r1: "deref bufs (tmp x) s1 = (Inr U, s1)" using U by (simp add: deref_def s1_def)
    have r2: "deref batches (batchTriangles.dst x) s2 = (Inr ba, s2)"
      using ba f2 by (simp add: deref_def)
    have r3: "Triangles_Len ?ch s2 = (Inr (int (len C)), s2)" using C2 by (simp add: Triangles_Len_eq)
    have r4: "Triangles_Len (tri x) s2 = (Inr (int (len T)), s2)"
      using T f2 by (simp add: Triangles_Len_eq)
    have r5: "Triangles_Len ?ch s3 = (Inr (int (len C')), s3)" using h3C by (simp add: Triangles_Len_eq)
    have r6: "Triangles_Len (tri x) s3 = (Inr (int (len T)), s3)" using h3T by (simp add: Triangles_Len_eq)
    show ?thesis
      unfolding batchTriangles_draw_def
      by (simp add: bnd_def r0 1 r1 2 r2 r3 r4 3 r5 r6 4 5 6 7)
  qed
  have a7: "arrays s7 = (arrays s3)[arr C' := xs6]" "bufs s7 = bufs s3 @ [A]"
    "batches s7 = (batches s)[batchTriangles.dst x := ba\<lparr>cont := (cont ba)\<lparr>dirty := True\<rparr>\<rparr>]"
    "btris s7 = btris s" "bpics s7 = bpics s"
    using f3 f2 by (simp_all add: s7_def s6_def s4_def)
  have lx6: "length xs6 = length xs3" using l6 xs3 lenC' by (simp add: xs6_def length_write_at)
  show thesis
  proof (rule that [of s7 C'])
    show "batchTriangles_draw prj dv bt bp s = (Inr (), s7)" by (rule run)
    show "btris s7 = btris s" by (rule a7)
    show "bpics s7 = bpics s" by (rule a7)
    show "batches s7 = (batches s)[batchTriangles.dst x := ba\<lparr>cont := (cont ba)\<lparr>dirty := True\<rparr>\<rparr>]"
      by (rule a7)
    show "bufs s7 = (bufs s)[?ch := C'] @ [C'\<lparr>off := off C' + len C, len := len T\<rparr>]"
      using a7(2) b3 f2 by (simp add: A_def)
    show "len C' = len C + len T" by (rule lenC')
    show "props C' = props C" by (rule c3(2))
    show "arr C' = arr C \<or> arr C' = length (arrays s)" by (rule arrC')
    show "in_bounds s7 C'" using xs3 lx6 a7(1) by (simp add: in_bounds_def nth_opt_def)
    show "length (arrays s) \<le> length (arrays s7)" using a3(1) f2 a7(1) by simp
    show "\<forall>a<length (arrays s). a \<noteq> arr C \<and> a \<noteq> arr U \<longrightarrow> arrays s7 ! a = arrays s ! a"
      using a3(2) arrC' a2(1) f2 a7(1) by (auto simp: nth_list_update)
    show "\<forall>a<length (arrays s). length (arrays s7 ! a) = length (arrays s ! a)"
    proof (intro allI impI)
      fix a assume a: "a < length (arrays s)"
      have "length (arrays s7 ! a) = length (arrays s3 ! a)"
        using a7(1) xs3 lx6 by (cases "a = arr C'") (simp_all add: nth_list_update)
      also have "\<dots> = length (arrays s2 ! a)" using a3(3) a f2 by simp
      also have "\<dots> = length (arrays s ! a)"
        using a2 ly2 xsU by (cases "a = arr U") simp_all
      finally show "length (arrays s7 ! a) = length (arrays s ! a)" .
    qed
    have "view s7 C' = take (len C + len T) (drop (off C') xs6)"
      using xs3 lenC' a7(1) by (simp add: view_def nth_opt_def)
    also have "\<dots> = take (len C) (drop (off C') xs3) @ seg6"
      using seg_write_at_tail [of "off C'" "len C" seg6 xs3] l6 xs3 lenC' by (simp add: xs6_def)
    also have "take (len C) (drop (off C') xs3) = take (len C) (view s3 C')"
      using xs3 lenC' by (simp add: view_nth)
    also have "\<dots> = view s C" using v3' xsC(5) by simp
    finally show "view s7 C' = view s C @
          merged prj (mat ba) (col ba) (props T) (props U) (props C) dv (view s T) (view s U)"
      using xsT(5) by (simp add: merged_def seg6_def seg5_def tmp1_def)
  qed
qed

lemma merged_nth:
  assumes "i < length tv" and "length uv = length tv"
  shows "merged prj m c pt pu pc dv tv uv ! i =
     put_fields (pc \<inter> pu) (baked prj m c (put_fields (pu \<inter> pt) (tv ! i) (uv ! i)))
       (put_fields (pc \<inter> pt) (tv ! i) dv)"
  using assms by (simp add: merged_def)

lemma length_merged: "length uv = length tv \<Longrightarrow> length (merged prj m c pt pu pc dv tv uv) = length tv"
  by (simp add: merged_def)

lemma merged_fields:
  assumes "i < length tv" and "length uv = length tv"
  shows "(FPosition \<in> pt \<inter> pc \<longrightarrow>
           Position (merged prj m c pt all_fields pc dv tv uv ! i) = prj m (Position (tv ! i))) \<and>
         (FColor \<in> pt \<inter> pc \<longrightarrow>
           Color (merged prj m c pt all_fields pc dv tv uv ! i) = Mul c (Color (tv ! i))) \<and>
         (FPicture \<in> pt \<inter> pc \<longrightarrow>
           TexCoord (merged prj m c pt all_fields pc dv tv uv ! i) = TexCoord (tv ! i))"
  using assms by (simp add: merged_nth put_fields_def baked_def all_fields_def)

lemma Triangles_Copy_eq:
  assumes "nth_opt (bufs s) h = Some b" and "in_bounds s b"
  shows "Triangles_Copy h s = (Inr (length (bufs s)),
           s\<lparr>arrays := arrays s @ [view s b],
             bufs := bufs s @ [b\<lparr>arr := length (arrays s), off := 0\<rparr>]\<rparr>)"
  using assms by (auto simp: Triangles_Copy_def bnd_def deref_def in_bounds_def split: option.splits)

lemma MakeTrianglesData_eq:
  "0 \<le> n \<Longrightarrow> MakeTrianglesData dv n s = (Inr (length (bufs s)),
      s\<lparr>arrays := arrays s @ [replicate (nat n) dv],
        bufs := bufs s @ [\<lparr>arr = length (arrays s), off = 0, len = nat n, props = all_fields\<rparr>]\<rparr>)"
  by (simp add: MakeTrianglesData_def)

lemma MakeTriangles_eq:
  assumes T: "nth_opt (bufs s) t = Some T" and ib: "in_bounds s T"
  shows "Batch_MakeTriangles dv b t s = (Inr (TTbatch (length (btris s))),
     s\<lparr>arrays := arrays s @ [view s T, replicate (len T) dv],
       bufs := bufs s @ [T\<lparr>arr := length (arrays s), off := 0\<rparr>,
         \<lparr>arr = Suc (length (arrays s)), off = 0, len = len T, props = all_fields\<rparr>],
       btris := btris s @ [\<lparr>tri = length (bufs s), tmp = Suc (length (bufs s)), dst = b\<rparr>]\<rparr>)"
proof -
  define s1 where "s1 = s\<lparr>arrays := arrays s @ [view s T],
             bufs := bufs s @ [T\<lparr>arr := length (arrays s), off := 0\<rparr>]\<rparr>"
  have 1: "Triangles_Copy t s = (Inr (length (bufs s)), s1)"
    using Triangles_Copy_eq [OF T ib] by (simp add: s1_def)
  have "nth_opt (bufs s1) t = Some T"
    using T by (simp add: s1_def nth_opt_def nth_append split: if_splits)
  then have 2: "Triangles_Len t s1 = (Inr (int (len T)), s1)" by (rule Triangles_Len_eq)
  have 3: "MakeTrianglesData dv (int (len T)) s1 = (Inr (length (bufs s1)),
      s1\<lparr>arrays := arrays s1 @ [replicate (nat (int (len T))) dv],
        bufs := bufs s1 @ [\<lparr>arr = length (arrays s1), off = 0, len = nat (int (len T)), props = all_fields\<rparr>]\<rparr>)"
    by (rule MakeTrianglesData_eq) simp
  show ?thesis
    unfolding Batch_MakeTriangles_def
    by (simp add: bnd_def 1 2 3) (simp add: s1_def)
qed

lemma container_eq:
  "nth_opt (batches s) b = Some ba \<Longrightarrow> nth_opt (bufs s) (Triangles (cont ba)) = Some C \<Longrightarrow>
   container s b = view s C"
  by (simp add: container_def contents_def)

lemma mergeableD:
  assumes "mergeable s bt"
  obtains x ba T U C where "nth_opt (btris s) bt = Some x"
    and "nth_opt (batches s) (batchTriangles.dst x) = Some ba"
    and "nth_opt (bufs s) (tri x) = Some T" and "nth_opt (bufs s) (tmp x) = Some U"
    and "nth_opt (bufs s) (Triangles (cont ba)) = Some C"
    and "in_bounds s T" and "in_bounds s U" and "in_bounds s C" and "len T = len U"
    and "props U = all_fields" and "arr T \<noteq> arr U" and "arr C \<noteq> arr T" and "arr C \<noteq> arr U"
  using assms unfolding mergeable_def by (auto split: option.splits)

lemma mergeableI:
  assumes "nth_opt (btris s) bt = Some x"
    and "nth_opt (batches s) (batchTriangles.dst x) = Some ba"
    and "nth_opt (bufs s) (tri x) = Some T" and "nth_opt (bufs s) (tmp x) = Some U"
    and "nth_opt (bufs s) (Triangles (cont ba)) = Some C"
    and "in_bounds s T" and "in_bounds s U" and "in_bounds s C" and "len T = len U"
    and "props U = all_fields" and "arr T \<noteq> arr U" and "arr C \<noteq> arr T" and "arr C \<noteq> arr U"
  shows "mergeable s bt"
  using assms unfolding mergeable_def by simp

text \<open>A merge appends exactly \<open>merge_of\<close> to the container of the proxy's batch.\<close>

lemma draw_appends:
  assumes m: "mergeable s bt" and x: "nth_opt (btris s) bt = Some x"
    and ba: "nth_opt (batches s) (batchTriangles.dst x) = Some ba"
  obtains s' where "batchTriangles_draw prj dv bt bp s = (Inr (), s')"
    and "container s' (batchTriangles.dst x) = container s (batchTriangles.dst x) @ merge_of prj dv s bt"
    and "is_dirty s' (batchTriangles.dst x)"
    and "btris s' = btris s"
    and "nth_opt (batches s') (batchTriangles.dst x) = Some (ba\<lparr>cont := (cont ba)\<lparr>dirty := True\<rparr>\<rparr>)"
    and "\<And>bt' y. mergeable s bt' \<Longrightarrow> nth_opt (btris s) bt' = Some y \<Longrightarrow>
           batchTriangles.dst y = batchTriangles.dst x \<Longrightarrow>
           mergeable s' bt' \<and>
           supports s' (tri y) = supports s (tri y) \<and> supports s' (tmp y) = supports s (tmp y)"
    and "supports s' (Triangles (cont ba)) = supports s (Triangles (cont ba))"
proof -
  from m x ba obtain T U C where
    T: "nth_opt (bufs s) (tri x) = Some T" and U: "nth_opt (bufs s) (tmp x) = Some U"
    and C: "nth_opt (bufs s) (Triangles (cont ba)) = Some C"
    and ib: "in_bounds s T" "in_bounds s U" "in_bounds s C" and l: "len T = len U"
    and pU: "props U = all_fields" and d: "arr T \<noteq> arr U" "arr C \<noteq> arr T" "arr C \<noteq> arr U"
    by (auto elim!: mergeableD)
  let ?b = "batchTriangles.dst x" and ?ch = "Triangles (cont ba)"
  obtain s' C' where dr: "batchTriangles_draw prj dv bt bp s = (Inr (), s')"
    and f: "btris s' = btris s"
    and bs: "batches s' = (batches s)[?b := ba\<lparr>cont := (cont ba)\<lparr>dirty := True\<rparr>\<rparr>]"
    and bf: "bufs s' = (bufs s)[?ch := C'] @ [C'\<lparr>off := off C' + len C, len := len T\<rparr>]"
    and c': "len C' = len C + len T" "props C' = props C"
      "arr C' = arr C \<or> arr C' = length (arrays s)" "in_bounds s' C'"
    and vw: "view s' C' = view s C @
          merged prj (mat ba) (col ba) (props T) (props U) (props C) dv (view s T) (view s U)"
    and ar: "length (arrays s) \<le> length (arrays s')"
      "\<forall>a<length (arrays s). a \<noteq> arr C \<and> a \<noteq> arr U \<longrightarrow> arrays s' ! a = arrays s ! a"
      "\<forall>a<length (arrays s). length (arrays s' ! a) = length (arrays s ! a)"
    using draw_result [OF x T U ba C ib l d, of prj dv bp] by metis
  have hC: "?ch < length (bufs s)" "bufs s ! ?ch = C" using C by (simp_all add: nth_opt_Some)
  have hb: "?b < length (batches s)" using ba by (simp add: nth_opt_Some)
  have b': "nth_opt (batches s') ?b = Some (ba\<lparr>cont := (cont ba)\<lparr>dirty := True\<rparr>\<rparr>)"
    using bs hb by (simp add: nth_opt_def)
  have c2: "nth_opt (bufs s') ?ch = Some C'" using bf hC by (simp add: nth_opt_def nth_append)
  have old: "\<And>h b. nth_opt (bufs s) h = Some b \<Longrightarrow> h \<noteq> ?ch \<Longrightarrow> nth_opt (bufs s') h = Some b"
    using bf by (auto simp: nth_opt_def nth_append split: if_splits)
  have ibk: "\<And>b. in_bounds s b \<Longrightarrow> in_bounds s' b"
  proof -
    fix b assume "in_bounds s b"
    then obtain xs where "arr b < length (arrays s)" "off b + len b \<le> length (arrays s ! arr b)"
      by (rule in_boundsD) simp
    then show "in_bounds s' b" using ar by (intro in_boundsI) auto
  qed
  show thesis
  proof (rule that [of s'])
    show "batchTriangles_draw prj dv bt bp s = (Inr (), s')" by (rule dr)
    show "btris s' = btris s" by (rule f)
    show "nth_opt (batches s') ?b = Some (ba\<lparr>cont := (cont ba)\<lparr>dirty := True\<rparr>\<rparr>)" by (rule b')
    show "is_dirty s' ?b" using b' by (simp add: is_dirty_def)
    have "container s' ?b = view s' C'" using b' c2 by (simp add: container_def contents_def)
    moreover have "container s ?b = view s C" using ba C by (simp add: container_eq)
    moreover have "merge_of prj dv s bt =
        merged prj (mat ba) (col ba) (props T) (props U) (props C) dv (view s T) (view s U)"
      using x ba T U C by (simp add: merge_of_def supports_def contents_def)
    ultimately show "container s' ?b = container s ?b @ merge_of prj dv s bt" using vw by simp
    show "supports s' ?ch = supports s ?ch" using c2 C c'(2) by (simp add: supports_def)
  next
    fix bt' y
    assume m': "mergeable s bt'" and y: "nth_opt (btris s) bt' = Some y"
      and dy: "batchTriangles.dst y = ?b"
    from m' y dy ba C obtain T' U' where
      T': "nth_opt (bufs s) (tri y) = Some T'" and U': "nth_opt (bufs s) (tmp y) = Some U'"
      and ib': "in_bounds s T'" "in_bounds s U'" and l': "len T' = len U'"
      and pU': "props U' = all_fields"
      and d': "arr T' \<noteq> arr U'" "arr C \<noteq> arr T'" "arr C \<noteq> arr U'"
      by (auto elim!: mergeableD)
    have n: "tri y \<noteq> ?ch" "tmp y \<noteq> ?ch" using T' U' C d' by auto
    have T2: "nth_opt (bufs s') (tri y) = Some T'" using old [OF T' n(1)] .
    have U2: "nth_opt (bufs s') (tmp y) = Some U'" using old [OF U' n(2)] .
    have lt: "arr T' < length (arrays s)" "arr U' < length (arrays s)"
      using ib' by (auto elim: in_boundsD)
    have "mergeable s' bt'"
      apply (rule mergeableI [where x = y and ba = "ba\<lparr>cont := (cont ba)\<lparr>dirty := True\<rparr>\<rparr>"
            and T = T' and U = U' and C = C'])
      using y f dy b' T2 U2 c2 ibk [OF ib'(1)] ibk [OF ib'(2)] c'(4) l' pU' d' c'(3) lt
      by auto
    moreover have "supports s' (tri y) = supports s (tri y)" using T' T2 by (simp add: supports_def)
    moreover have "supports s' (tmp y) = supports s (tmp y)" using U' U2 by (simp add: supports_def)
    ultimately show "mergeable s' bt' \<and>
           supports s' (tri y) = supports s (tri y) \<and> supports s' (tmp y) = supports s (tmp y)"
      by simp
  qed
qed



lemma Batch_SetMatrix_eq:
  "nth_opt (batches s) b = Some ba \<Longrightarrow>
   Batch_SetMatrix b m s = (Inr (), s\<lparr>batches := (batches s)[b := ba\<lparr>mat := m\<rparr>]\<rparr>)"
  by (simp add: Batch_SetMatrix_def bnd_def deref_def)

lemma Batch_SetColorMask_eq:
  "nth_opt (batches s) b = Some ba \<Longrightarrow>
   Batch_SetColorMask conv b c s = (Inr (), s\<lparr>batches := (batches s)[b :=
      ba\<lparr>col := (case c of None \<Rightarrow> white | Some y \<Rightarrow> ToRGBA conv y)\<rparr>]\<rparr>)"
  by (auto simp: Batch_SetColorMask_def bnd_def deref_def split: option.splits)

lemma batches_upd_obs:
  assumes "nth_opt (batches s) b = Some ba" and "Triangles (cont ba') = Triangles (cont ba)"
  shows "contents (s\<lparr>batches := (batches s)[b := ba']\<rparr>) h = contents s h"
    and "supports (s\<lparr>batches := (batches s)[b := ba']\<rparr>) h = supports s h"
    and "container (s\<lparr>batches := (batches s)[b := ba']\<rparr>) b' = container s b'"
    and "mergeable (s\<lparr>batches := (batches s)[b := ba']\<rparr>) bt = mergeable s bt"
proof -
  let ?s = "s\<lparr>batches := (batches s)[b := ba']\<rparr>"
  have v: "\<And>c. view ?s c = view s c" by (simp add: view_def)
  have i: "\<And>c. in_bounds ?s c = in_bounds s c" by (simp add: in_bounds_def)
  show c: "\<And>h. contents ?s h = contents s h" by (simp add: contents_def v split: option.splits)
  show "supports ?s h = supports s h" by (simp add: supports_def)
  show "container ?s b' = container s b'"
    using assms by (cases "b' = b") (auto simp: container_def c nth_opt_def split: option.splits if_splits)
  show "mergeable ?s bt = mergeable s bt"
    using assms
    by (cases "nth_opt (btris s) bt")
      (auto simp: mergeable_def i nth_opt_def nth_list_update split: option.splits if_splits)
qed

lemma merge_of_fields:
  assumes m: "mergeable s bt" and x: "nth_opt (btris s) bt = Some x"
    and ba: "nth_opt (batches s) (batchTriangles.dst x) = Some ba"
  shows "length (merge_of prj dv s bt) = length (contents s (tri x))"
    and "i < length (contents s (tri x)) \<Longrightarrow>
      (FPosition \<in> supports s (tri x) \<inter> supports s (Triangles (cont ba)) \<longrightarrow>
         Position (merge_of prj dv s bt ! i) = prj (mat ba) (Position (contents s (tri x) ! i))) \<and>
      (FColor \<in> supports s (tri x) \<inter> supports s (Triangles (cont ba)) \<longrightarrow>
         Color (merge_of prj dv s bt ! i) = Mul (col ba) (Color (contents s (tri x) ! i))) \<and>
      (FPicture \<in> supports s (tri x) \<inter> supports s (Triangles (cont ba)) \<longrightarrow>
         TexCoord (merge_of prj dv s bt ! i) = TexCoord (contents s (tri x) ! i))"
proof -
  from m x ba obtain T U C where
    T: "nth_opt (bufs s) (tri x) = Some T" and U: "nth_opt (bufs s) (tmp x) = Some U"
    and C: "nth_opt (bufs s) (Triangles (cont ba)) = Some C"
    and ib: "in_bounds s T" "in_bounds s U" and l: "len T = len U"
    and pU: "props U = all_fields"
    by (auto elim!: mergeableD)
  have lT: "length (view s T) = len T" using ib(1) by (rule in_boundsD)
  have lU: "length (view s U) = len U" using ib(2) by (rule in_boundsD)
  have mo: "merge_of prj dv s bt =
      merged prj (mat ba) (col ba) (props T) all_fields (props C) dv (view s T) (view s U)"
    using x ba T U C pU by (simp add: merge_of_def supports_def contents_def)
  have ct: "contents s (tri x) = view s T" "supports s (tri x) = props T"
    "supports s (Triangles (cont ba)) = props C"
    using T C by (simp_all add: contents_def supports_def)
  show "length (merge_of prj dv s bt) = length (contents s (tri x))"
    using lT lU l by (simp add: mo ct length_merged)
  assume "i < length (contents s (tri x))"
  then have "i < length (view s T)" "length (view s U) = length (view s T)"
    using lT lU l by (simp_all add: ct)
  from merged_fields [OF this, of "props T" "props C" prj "mat ba" "col ba" dv]
  show "(FPosition \<in> supports s (tri x) \<inter> supports s (Triangles (cont ba)) \<longrightarrow>
         Position (merge_of prj dv s bt ! i) = prj (mat ba) (Position (contents s (tri x) ! i))) \<and>
      (FColor \<in> supports s (tri x) \<inter> supports s (Triangles (cont ba)) \<longrightarrow>
         Color (merge_of prj dv s bt ! i) = Mul (col ba) (Color (contents s (tri x) ! i))) \<and>
      (FPicture \<in> supports s (tri x) \<inter> supports s (Triangles (cont ba)) \<longrightarrow>
         TexCoord (merge_of prj dv s bt ! i) = TexCoord (contents s (tri x) ! i))"
    by (simp add: mo ct)
qed



subsection \<open>A proxy reused over frames\<close>













text \<open>
  C8: SetColorMask with a nil colour sets the batch's mask to opaque white, with any other
  colour to its RGBA conversion; the batch's container, matrix and picture, every other
  batch, and all buffers and proxies are left as they were.
\<close>

theorem SetColorMask_effect:
  assumes "nth_opt (batches s) b = Some x"
    and "Batch_SetColorMask conv b c s = (r, s')"
  shows "r = Inr () \<and>
    col (batches s' ! b) = (case c of None \<Rightarrow> white | Some y \<Rightarrow> ToRGBA conv y) \<and>
    mat (batches s' ! b) = mat x \<and> cont (batches s' ! b) = cont x \<and>
    length (batches s') = length (batches s) \<and>
    (\<forall>b'. b' \<noteq> b \<longrightarrow> batches s' ! b' = batches s ! b') \<and>
    arrays s' = arrays s \<and> bufs s' = bufs s \<and> btris s' = btris s \<and> bpics s' = bpics s"
  using assms
  by (auto simp: Batch_SetColorMask_def monad_defs split: if_splits option.splits)

theorem SetColorMask_effect_witness:
  "nth_opt (batches ex_store) 0 = Some (ex_batch 0 (PicPtr 7) 2 3) \<and>
   col (batches (snd (Batch_SetColorMask (\<lambda>_::unit. white) 0 None ex_store)) ! 0) = white \<and>
   col (batches (snd (Batch_SetColorMask (\<lambda>_::unit. white) 0
      (Some (IsRGBA \<lparr>R = 2, G = 3, B = 4, A = 1\<rparr>)) ex_store)) ! 0)
     = \<lparr>R = 2, G = 3, B = 4, A = 1\<rparr>"
proof -
  have h: "nth_opt (batches ex_store) 0 = Some (ex_batch 0 (PicPtr 7) 2 3)"
    by (simp add: nth_opt_def ex_store_def)
  have a: "col (batches (snd (Batch_SetColorMask (\<lambda>_::unit. white) 0 None ex_store)) ! 0)
      = white"
    using SetColorMask_effect [OF h, of "\<lambda>_::unit. white" None
        "fst (Batch_SetColorMask (\<lambda>_::unit. white) 0 None ex_store)"
        "snd (Batch_SetColorMask (\<lambda>_::unit. white) 0 None ex_store)"]
    by simp
  have b: "col (batches (snd (Batch_SetColorMask (\<lambda>_::unit. white) 0
      (Some (IsRGBA \<lparr>R = 2, G = 3, B = 4, A = 1\<rparr>)) ex_store)) ! 0)
     = \<lparr>R = 2, G = 3, B = 4, A = 1\<rparr>"
    using SetColorMask_effect [OF h, of "\<lambda>_::unit. white"
        "Some (IsRGBA \<lparr>R = 2, G = 3, B = 4, A = 1\<rparr>)"
        "fst (Batch_SetColorMask (\<lambda>_::unit. white) 0
            (Some (IsRGBA \<lparr>R = 2, G = 3, B = 4, A = 1\<rparr>)) ex_store)"
        "snd (Batch_SetColorMask (\<lambda>_::unit. white) 0
            (Some (IsRGBA \<lparr>R = 2, G = 3, B = 4, A = 1\<rparr>)) ex_store)"]
    by (simp add: ToRGBA_def)
  show ?thesis using h a b by simp
qed

text \<open>
  C10: when the TargetTriangles handed to the image proxy's Draw is not a batchTriangles,
  the type assertion panics, whatever the image proxy is; the owning batches are never
  compared, and the store is left as it was.
\<close>

theorem Draw_type_assertion:
  assumes "\<forall>bt. t \<noteq> TTbatch bt"
  shows "batchPicture_Draw prj dv bp t s = (Inl TypeAssertion, s)"
  using assms by (cases t) (auto simp: batchPicture_Draw_def monad_defs)

theorem Draw_type_assertion_witness:
  "batchPicture_Draw ex_prj ex_dv 0 (TTother 5) ex_store = (Inl TypeAssertion, ex_store) \<and>
   batchPicture_Draw ex_prj ex_dv 0 TTnil ex_store = (Inl TypeAssertion, ex_store)"
  using Draw_type_assertion [of "TTother 5" ex_prj ex_dv 0 ex_store]
    Draw_type_assertion [of TTnil ex_prj ex_dv 0 ex_store]
  by simp

text \<open>
  C3: the image proxy's Draw, given a geometry proxy, panics when the two proxies belong
  to different batches, and then the store is exactly as before the call. When they belong
  to the same batch the call is the merge of the geometry proxy: for a proxy that can be
  merged it returns, the container of the batch is extended by the merged vertices, as
  many as the proxy's clone holds, and the batch is dirty.
\<close>

theorem Draw_checks_owner:
  assumes p: "nth_opt (bpics s) bp = Some p" and x: "nth_opt (btris s) bt = Some x"
  shows "(batchPicture.dst p \<noteq> batchTriangles.dst x \<longrightarrow>
           batchPicture_Draw prj dv bp (TTbatch bt) s = (Inl BatchMismatch, s)) \<and>
         (batchPicture.dst p = batchTriangles.dst x \<longrightarrow>
           batchPicture_Draw prj dv bp (TTbatch bt) s
             = batchTriangles_draw prj dv bt (Some bp) s \<and>
           (mergeable s bt \<longrightarrow>
             (\<exists>s'. batchPicture_Draw prj dv bp (TTbatch bt) s = (Inr (), s') \<and>
                container s' (batchTriangles.dst x)
                  = container s (batchTriangles.dst x) @ merge_of prj dv s bt \<and>
                length (merge_of prj dv s bt) = length (contents s (tri x)) \<and>
                is_dirty s' (batchTriangles.dst x))))"
proof (intro conjI impI)
  assume "batchPicture.dst p \<noteq> batchTriangles.dst x"
  then show "batchPicture_Draw prj dv bp (TTbatch bt) s = (Inl BatchMismatch, s)"
    using p x by (simp add: batchPicture_Draw_def bnd_def deref_def panic_def)
next
  assume e: "batchPicture.dst p = batchTriangles.dst x"
  then show d: "batchPicture_Draw prj dv bp (TTbatch bt) s
             = batchTriangles_draw prj dv bt (Some bp) s"
    using p x by (simp add: batchPicture_Draw_def bnd_def deref_def)
  assume m: "mergeable s bt"
  from m obtain x' ba where "nth_opt (btris s) bt = Some x'"
    and "nth_opt (batches s) (batchTriangles.dst x') = Some ba"
    by (rule mergeableD)
  with x have ba: "nth_opt (batches s) (batchTriangles.dst x) = Some ba" by simp
  obtain s' where
    "batchTriangles_draw prj dv bt (Some bp) s = (Inr (), s')"
    "container s' (batchTriangles.dst x) = container s (batchTriangles.dst x) @ merge_of prj dv s bt"
    "is_dirty s' (batchTriangles.dst x)"
    using draw_appends [OF m x ba, of prj dv "Some bp"] by metis
  moreover have "length (merge_of prj dv s bt) = length (contents s (tri x))"
    by (rule merge_of_fields(1) [OF m x ba])
  ultimately show "\<exists>s'. batchPicture_Draw prj dv bp (TTbatch bt) s = (Inr (), s') \<and>
                container s' (batchTriangles.dst x)
                  = container s (batchTriangles.dst x) @ merge_of prj dv s bt \<and>
                length (merge_of prj dv s bt) = length (contents s (tri x)) \<and>
                is_dirty s' (batchTriangles.dst x)"
    using d by auto
qed

theorem Draw_checks_owner_witness:
  "batchPicture_Draw ex_prj ex_dv 0 (TTbatch 1) ex_store = (Inl BatchMismatch, ex_store) \<and>
   mergeable ex_store 0 \<and> container ex_store 0 = [] \<and>
   fst (batchPicture_Draw ex_prj ex_dv 0 (TTbatch 0) ex_store) = Inr () \<and>
   container (snd (batchPicture_Draw ex_prj ex_dv 0 (TTbatch 0) ex_store)) 0
     = [ex_vertex 2 6 3, ex_vertex 8 15 6, ex_vertex 14 24 9] \<and>
   is_dirty (snd (batchPicture_Draw ex_prj ex_dv 0 (TTbatch 0) ex_store)) 0"
proof -
  have p: "nth_opt (bpics ex_store) 0 = Some \<lparr>pic = PicPtr 7, dst = 0\<rparr>"
    by (simp add: nth_opt_def ex_store_def)
  have x1: "nth_opt (btris ex_store) 1 = Some \<lparr>tri = 4, tmp = 5, dst = 1\<rparr>"
    by (simp add: nth_opt_def ex_store_def)
  have x0: "nth_opt (btris ex_store) 0 = Some \<lparr>tri = 2, tmp = 3, dst = 0\<rparr>"
    by (simp add: nth_opt_def ex_store_def)
  have m: "mergeable ex_store 0" by code_simp
  have c: "container ex_store 0 = []" by code_simp
  have mo: "merge_of ex_prj ex_dv ex_store 0
      = [ex_vertex 2 6 3, ex_vertex 8 15 6, ex_vertex 14 24 9]" by code_simp
  from Draw_checks_owner [OF p x1, of ex_prj ex_dv]
  have 1: "batchPicture_Draw ex_prj ex_dv 0 (TTbatch 1) ex_store = (Inl BatchMismatch, ex_store)"
    by simp
  let ?x = "\<lparr>tri = 2, tmp = 3, dst = 0\<rparr>"
  have e: "batchPicture.dst \<lparr>pic = PicPtr 7, dst = 0\<rparr> = batchTriangles.dst ?x" by simp
  from Draw_checks_owner [OF p x0, of ex_prj ex_dv, THEN conjunct2, rule_format, OF e,
      THEN conjunct2, rule_format, OF m]
  obtain s' where
    s': "batchPicture_Draw ex_prj ex_dv 0 (TTbatch 0) ex_store = (Inr (), s')"
    "container s' (batchTriangles.dst ?x)
       = container ex_store (batchTriangles.dst ?x) @ merge_of ex_prj ex_dv ex_store 0"
    "is_dirty s' (batchTriangles.dst ?x)"
    by blast
  from s' c mo have 2: "fst (batchPicture_Draw ex_prj ex_dv 0 (TTbatch 0) ex_store) = Inr ()"
    "container (snd (batchPicture_Draw ex_prj ex_dv 0 (TTbatch 0) ex_store)) 0
     = [ex_vertex 2 6 3, ex_vertex 8 15 6, ex_vertex 14 24 9]"
    "is_dirty (snd (batchPicture_Draw ex_prj ex_dv 0 (TTbatch 0) ex_store)) 0"
    by simp_all
  show ?thesis by (intro conjI) (rule 1 m c 2)+
qed

text \<open>
  C9: Update of a geometry proxy with a buffer of another length panics and leaves the
  whole store, and so the proxy's clone and its scratch buffer, exactly as it was.
\<close>

theorem Update_length_mismatch:
  assumes "nth_opt (btris s) bt = Some x"
    and "nth_opt (bufs s) (tri x) = Some c" and "nth_opt (bufs s) t = Some d"
    and "len d \<noteq> len c"
  shows "batchTriangles_Update bt t s = (Inl LengthMismatch, s)"
  using assms
  by (auto simp: batchTriangles_Update_def Triangles_Update_def monad_defs
      split: if_splits option.splits)

theorem Update_length_mismatch_witness:
  "batchTriangles_Update 0 4 ex_store = (Inl LengthMismatch, ex_store)"
proof -
  have x: "nth_opt (btris ex_store) 0 = Some \<lparr>tri = 2, tmp = 3, dst = 0\<rparr>"
    by (simp add: nth_opt_def ex_store_def)
  have c: "nth_opt (bufs ex_store) (tri \<lparr>tri = 2, tmp = 3, dst = 0\<rparr>)
      = Some (ex_buf 2 3)"
    by (simp add: nth_opt_def ex_store_def)
  have d: "nth_opt (bufs ex_store) 4 = Some (ex_buf 4 1)"
    by (simp add: nth_opt_def ex_store_def)
  show ?thesis using Update_length_mismatch [OF x c d] by (simp add: ex_buf_def)
qed



text \<open>
  C4: geometry A is merged, then SetMatrix and SetColorMask are called, then geometry B is
  merged into the same batch. The two setters leave the container as it was; after the
  second merge the container is the old one followed by A's vertices, transformed by the
  matrix and the mask of the first merge, followed by B's vertices, transformed by the new
  matrix and the new mask.
\<close>

theorem merges_not_retroactive:
  assumes mA: "mergeable s btA" and mB: "mergeable s btB"
    and xA: "nth_opt (btris s) btA = Some xA" and xB: "nth_opt (btris s) btB = Some xB"
    and dA: "batchTriangles.dst xA = b" and dB: "batchTriangles.dst xB = b"
    and ba: "nth_opt (batches s) b = Some ba"
    and 1: "batchTriangles_draw prj dv btA bpA s = (r1, s1)"
    and 2: "Batch_SetMatrix b m2 s1 = (r2, s2)"
    and 3: "Batch_SetColorMask conv b c2 s2 = (r3, s3)"
    and 4: "batchTriangles_draw prj dv btB bpB s3 = (r4, s4)"
  shows "r1 = Inr () \<and> r2 = Inr () \<and> r3 = Inr () \<and> r4 = Inr () \<and>
    container s2 b = container s1 b \<and> container s3 b = container s1 b \<and>
    (\<exists>newA newB.
       container s1 b = container s b @ newA \<and> container s4 b = container s b @ newA @ newB \<and>
       length newA = length (contents s (tri xA)) \<and>
       length newB = length (contents s3 (tri xB)) \<and>
       (\<forall>i<length newA.
          (FPosition \<in> supports s (tri xA) \<inter> supports s (Triangles (cont ba)) \<longrightarrow>
             Position (newA ! i) = prj (mat ba) (Position (contents s (tri xA) ! i))) \<and>
          (FColor \<in> supports s (tri xA) \<inter> supports s (Triangles (cont ba)) \<longrightarrow>
             Color (newA ! i) = Mul (col ba) (Color (contents s (tri xA) ! i)))) \<and>
       (\<forall>j<length newB.
          (FPosition \<in> supports s (tri xB) \<inter> supports s (Triangles (cont ba)) \<longrightarrow>
             Position (newB ! j) = prj m2 (Position (contents s3 (tri xB) ! j))) \<and>
          (FColor \<in> supports s (tri xB) \<inter> supports s (Triangles (cont ba)) \<longrightarrow>
             Color (newB ! j) = Mul (case c2 of None \<Rightarrow> white | Some y \<Rightarrow> ToRGBA conv y)
                (Color (contents s3 (tri xB) ! j)))))"
proof -
  let ?ch = "Triangles (cont ba)"
  have baA: "nth_opt (batches s) (batchTriangles.dst xA) = Some ba" using ba dA by simp
  define ba1 where "ba1 = ba\<lparr>cont := (cont ba)\<lparr>dirty := True\<rparr>\<rparr>"
  obtain s1' where d1: "batchTriangles_draw prj dv btA bpA s = (Inr (), s1')"
    and c1: "container s1' b = container s b @ merge_of prj dv s btA"
    and t1: "btris s1' = btris s"
    and b1: "nth_opt (batches s1') b = Some ba1"
    and mB1: "mergeable s1' btB" "supports s1' (tri xB) = supports s (tri xB)"
    and sc1: "supports s1' ?ch = supports s ?ch"
    using draw_appends [OF mA xA baA, of prj dv bpA] mB xB dA dB unfolding ba1_def by metis
  have r1: "r1 = Inr ()" "s1 = s1'" using 1 d1 by simp_all
  define ba2 where "ba2 = ba1\<lparr>mat := m2\<rparr>"
  have s2: "r2 = Inr ()" "s2 = s1'\<lparr>batches := (batches s1')[b := ba2]\<rparr>"
    using 2 Batch_SetMatrix_eq [OF b1, of m2] r1 by (simp_all add: ba2_def)
  have tr2: "Triangles (cont ba2) = Triangles (cont ba1)" by (simp add: ba2_def)
  note o2 = batches_upd_obs [OF b1 tr2, folded s2(2)]
  have b2: "nth_opt (batches s2) b = Some ba2" using b1 by (simp add: s2 nth_opt_def split: if_splits)
  define ba3 where "ba3 = ba2\<lparr>col := (case c2 of None \<Rightarrow> white | Some y \<Rightarrow> ToRGBA conv y)\<rparr>"
  have s3: "r3 = Inr ()" "s3 = s2\<lparr>batches := (batches s2)[b := ba3]\<rparr>"
    using 3 Batch_SetColorMask_eq [OF b2, of conv c2] by (simp_all add: ba3_def)
  have tr3: "Triangles (cont ba3) = Triangles (cont ba2)" by (simp add: ba3_def)
  note o3 = batches_upd_obs [OF b2 tr3, folded s3(2)]
  have b3: "nth_opt (batches s3) (batchTriangles.dst xB) = Some ba3"
    using b2 dB by (simp add: s3 nth_opt_def split: if_splits)
  have mB3: "mergeable s3 btB" using mB1(1) o2(4) o3(4) by simp
  have xB3: "nth_opt (btris s3) btB = Some xB" using xB t1 by (simp add: s3 s2)
  obtain s4' where d4: "batchTriangles_draw prj dv btB bpB s3 = (Inr (), s4')"
    and c4: "container s4' (batchTriangles.dst xB)
        = container s3 (batchTriangles.dst xB) @ merge_of prj dv s3 btB"
    using draw_appends [OF mB3 xB3 b3, of prj dv bpB] by metis
  have r4: "r4 = Inr ()" "s4 = s4'" using 4 d4 by simp_all
  have k2: "container s2 b = container s1 b" using o2(3) r1 by simp
  have k3: "container s3 b = container s1 b" using o3(3) k2 by simp
  have sup3: "supports s3 (tri xB) = supports s (tri xB)" "supports s3 (Triangles (cont ba3)) = supports s ?ch"
    using o2(2) o3(2) mB1(2) sc1 by (simp_all add: ba3_def ba2_def ba1_def)
  have mc3: "mat ba3 = m2" "col ba3 = (case c2 of None \<Rightarrow> white | Some y \<Rightarrow> ToRGBA conv y)"
    by (simp_all add: ba3_def ba2_def)
  let ?newA = "merge_of prj dv s btA" and ?newB = "merge_of prj dv s3 btB"
  have A: "container s1 b = container s b @ ?newA" using c1 r1 by simp
  have B: "container s4 b = container s b @ ?newA @ ?newB" using c4 r4 dB k3 A by simp
  note fA = merge_of_fields [OF mA xA baA, where prj = prj and dv = dv]
  note fB = merge_of_fields [OF mB3 xB3 b3, where prj = prj and dv = dv]
  have FA: "\<forall>i<length ?newA.
          (FPosition \<in> supports s (tri xA) \<inter> supports s ?ch \<longrightarrow>
             Position (?newA ! i) = prj (mat ba) (Position (contents s (tri xA) ! i))) \<and>
          (FColor \<in> supports s (tri xA) \<inter> supports s ?ch \<longrightarrow>
             Color (?newA ! i) = Mul (col ba) (Color (contents s (tri xA) ! i)))"
    using fA by simp
  have FB: "\<forall>j<length ?newB.
          (FPosition \<in> supports s (tri xB) \<inter> supports s ?ch \<longrightarrow>
             Position (?newB ! j) = prj m2 (Position (contents s3 (tri xB) ! j))) \<and>
          (FColor \<in> supports s (tri xB) \<inter> supports s ?ch \<longrightarrow>
             Color (?newB ! j) = Mul (case c2 of None \<Rightarrow> white | Some y \<Rightarrow> ToRGBA conv y)
                (Color (contents s3 (tri xB) ! j)))"
    using fB sup3 mc3 by simp
  show ?thesis
    apply (intro conjI)
          apply (rule r1(1))
         apply (rule s2(1))
        apply (rule s3(1))
       apply (rule r4(1))
      apply (rule k2)
     apply (rule k3)
    apply (rule exI [of _ ?newA], rule exI [of _ ?newB])
    using A B fA(1) fB(1) FA FB by blast
qed

theorem merges_not_retroactive_witness:
  "mergeable ex_store 0 \<and> mergeable ex_store 2 \<and>
   container ex_s2 0 = container ex_s1 0 \<and> container ex_s3 0 = container ex_s1 0 \<and>
   (\<exists>newA newB. container ex_s1 0 = newA \<and> container ex_s4 0 = newA @ newB \<and>
      length newA = 3 \<and> length newB = 1 \<and>
      Position (newA ! 0) = 2 \<and> Color (newA ! 0) = \<lparr>R = 6, G = 6, B = 6, A = 1\<rparr> \<and>
      Position (newB ! 0) = 30 \<and> Color (newB ! 0) = \<lparr>R = 7, G = 7, B = 7, A = 1\<rparr>)"
proof -
  have mA: "mergeable ex_store 0" and mB: "mergeable ex_store 2" by code_simp+
  have xA: "nth_opt (btris ex_store) 0 = Some \<lparr>tri = 2, tmp = 3, dst = 0\<rparr>"
    and xB: "nth_opt (btris ex_store) 2 = Some \<lparr>tri = 7, tmp = 8, dst = 0\<rparr>"
    and ba: "nth_opt (batches ex_store) 0 = Some (ex_batch 0 (PicPtr 7) 2 3)"
    by code_simp+
  have r: "batchTriangles_draw ex_prj ex_dv 0 None ex_store
        = (fst (batchTriangles_draw ex_prj ex_dv 0 None ex_store), ex_s1)"
    "Batch_SetMatrix 0 5 ex_s1 = (fst (Batch_SetMatrix 0 5 ex_s1), ex_s2)"
    "Batch_SetColorMask (\<lambda>_::unit. white) 0 None ex_s2
        = (fst (Batch_SetColorMask (\<lambda>_::unit. white) 0 None ex_s2), ex_s3)"
    "batchTriangles_draw ex_prj ex_dv 2 None ex_s3
        = (fst (batchTriangles_draw ex_prj ex_dv 2 None ex_s3), ex_s4)"
    by (simp_all add: ex_s1_def ex_s2_def ex_s3_def ex_s4_def)
  have e: "container ex_store 0 = []"
    "contents ex_store 2 ! 0 = ex_vertex 1 2 3" "contents ex_s3 7 ! 0 = ex_vertex 6 7 8"
    "length (contents ex_store 2) = 3" "length (contents ex_s3 7) = 1"
    "supports ex_store 2 = all_fields" "supports ex_store 7 = all_fields"
    "supports ex_store 0 = all_fields"
    by code_simp+
  from merges_not_retroactive [OF mA mB xA xB _ _ ba r]
  obtain newA newB where
    k: "container ex_s2 0 = container ex_s1 0" "container ex_s3 0 = container ex_s1 0"
    and a: "container ex_s1 0 = container ex_store 0 @ newA"
      "container ex_s4 0 = container ex_store 0 @ newA @ newB"
      "length newA = length (contents ex_store (tri \<lparr>tri = 2, tmp = 3, dst = 0\<rparr>))"
      "length newB = length (contents ex_s3 (tri \<lparr>tri = 7, tmp = 8, dst = 0\<rparr>))"
    and fA: "\<forall>i<length newA.
          (FPosition \<in> supports ex_store (tri \<lparr>tri = 2, tmp = 3, dst = 0\<rparr>) \<inter>
              supports ex_store (Triangles (cont (ex_batch 0 (PicPtr 7) 2 3))) \<longrightarrow>
             Position (newA ! i) = ex_prj (mat (ex_batch 0 (PicPtr 7) 2 3))
               (Position (contents ex_store (tri \<lparr>tri = 2, tmp = 3, dst = 0\<rparr>) ! i))) \<and>
          (FColor \<in> supports ex_store (tri \<lparr>tri = 2, tmp = 3, dst = 0\<rparr>) \<inter>
              supports ex_store (Triangles (cont (ex_batch 0 (PicPtr 7) 2 3))) \<longrightarrow>
             Color (newA ! i) = Mul (col (ex_batch 0 (PicPtr 7) 2 3))
               (Color (contents ex_store (tri \<lparr>tri = 2, tmp = 3, dst = 0\<rparr>) ! i)))"
    and fB: "\<forall>j<length newB.
          (FPosition \<in> supports ex_store (tri \<lparr>tri = 7, tmp = 8, dst = 0\<rparr>) \<inter>
              supports ex_store (Triangles (cont (ex_batch 0 (PicPtr 7) 2 3))) \<longrightarrow>
             Position (newB ! j) = ex_prj 5
               (Position (contents ex_s3 (tri \<lparr>tri = 7, tmp = 8, dst = 0\<rparr>) ! j))) \<and>
          (FColor \<in> supports ex_store (tri \<lparr>tri = 7, tmp = 8, dst = 0\<rparr>) \<inter>
              supports ex_store (Triangles (cont (ex_batch 0 (PicPtr 7) 2 3))) \<longrightarrow>
             Color (newB ! j) = Mul (case None :: (int, unit) Color option of None \<Rightarrow> white
                  | Some y \<Rightarrow> ToRGBA (\<lambda>_::unit. white) y)
                (Color (contents ex_s3 (tri \<lparr>tri = 7, tmp = 8, dst = 0\<rparr>) ! j)))"
    by auto
  have la: "length newA = 3" "length newB = 1" using a e by simp_all
  have tr: "Triangles (cont (ex_batch 0 (PicPtr 7) 2 3)) = 0" "mat (ex_batch 0 (PicPtr 7) 2 3) = 2"
    "col (ex_batch 0 (PicPtr 7) 2 3) = \<lparr>R = 3, G = 3, B = 3, A = 1\<rparr>"
    by (simp_all add: ex_batch_def)
  from fA [rule_format, of 0] la
  have gA: "Position (newA ! 0) = 2" "Color (newA ! 0) = \<lparr>R = 6, G = 6, B = 6, A = 1\<rparr>"
    by (simp_all add: e tr all_fields_def ex_prj_def ex_vertex_def Mul_def)
  from fB [rule_format, of 0] la
  have gB: "Position (newB ! 0) = 30" "Color (newB ! 0) = \<lparr>R = 7, G = 7, B = 7, A = 1\<rparr>"
    by (simp_all add: e tr all_fields_def ex_prj_def ex_vertex_def Mul_def white_def)
  have "container ex_s1 0 = newA \<and> container ex_s4 0 = newA @ newB \<and>
      length newA = 3 \<and> length newB = 1 \<and>
      Position (newA ! 0) = 2 \<and> Color (newA ! 0) = \<lparr>R = 6, G = 6, B = 6, A = 1\<rparr> \<and>
      Position (newB ! 0) = 30 \<and> Color (newB ! 0) = \<lparr>R = 7, G = 7, B = 7, A = 1\<rparr>"
    using a e la gA gB by simp
  then show ?thesis using mA mB k by blast
qed



subsection \<open>Rules for calls\<close>

lemma hoareI:
  "(\<And>s r s'. P s \<Longrightarrow> m s = (r, s') \<Longrightarrow> (case r of Inl e \<Rightarrow> E s' | Inr x \<Rightarrow> Q x s')) \<Longrightarrow> hoare P m Q E"
  by (auto simp: hoare_def split: prod.splits sum.splits)

lemma hoareD:
  "hoare P m Q E \<Longrightarrow> P s \<Longrightarrow> m s = (r, s') \<Longrightarrow> (case r of Inl e \<Rightarrow> E s' | Inr x \<Rightarrow> Q x s')"
  by (auto simp: hoare_def split: prod.splits sum.splits)

lemma hoare_bnd:
  assumes "hoare P m Mid E" and "\<And>x. hoare (Mid x) (f x) Q E"
  shows "hoare P (bnd m f) Q E"
proof (rule hoareI)
  fix s r s' assume P: "P s" and b: "bnd m f s = (r, s')"
  obtain r1 s1 where m: "m s = (r1, s1)" by (cases "m s")
  show "case r of Inl e \<Rightarrow> E s' | Inr x \<Rightarrow> Q x s'"
  proof (cases r1)
    case (Inl e)
    then show ?thesis using b m hoareD [OF assms(1) P m] by (auto simp: bnd_def)
  next
    case (Inr x)
    then have "Mid x s1" "f x s1 = (r, s')" using b m hoareD [OF assms(1) P m] by (simp_all add: bnd_def)
    then show ?thesis using hoareD [OF assms(2)] by blast
  qed
qed

lemma hoare_pre: "hoare P' m Q E \<Longrightarrow> (\<And>s. P s \<Longrightarrow> P' s) \<Longrightarrow> hoare P m Q E"
  by (auto simp: hoare_def)

lemma hoare_post:
  assumes "hoare P m Q' E'" and "\<And>x s. Q' x s \<Longrightarrow> Q x s" and "\<And>s. E' s \<Longrightarrow> E s"
  shows "hoare P m Q E"
proof (rule hoareI)
  fix s r s' assume "P s" and "m s = (r, s')"
  from hoareD [OF assms(1) this] show "case r of Inl e \<Rightarrow> E s' | Inr x \<Rightarrow> Q x s'"
    using assms(2,3) by (cases r) simp_all
qed

lemma hoare_ret: "(\<And>s. P s \<Longrightarrow> Q x s) \<Longrightarrow> hoare P (ret x) Q E"
  by (simp add: hoare_def ret_def)

lemma hoare_panic: "(\<And>s. P s \<Longrightarrow> E s) \<Longrightarrow> hoare P (panic e) Q E"
  by (simp add: hoare_def panic_def)

lemma hoare_deref:
  "(\<And>s. P s \<Longrightarrow> E s) \<Longrightarrow> hoare P (deref sel r) (\<lambda>x s. P s \<and> nth_opt (sel s) r = Some x) E"
  by (auto simp: hoare_def deref_def split: option.splits)


lemma hoare_if:
  "(c \<Longrightarrow> hoare P m Q E) \<Longrightarrow> (\<not> c \<Longrightarrow> hoare P m' Q E) \<Longrightarrow> hoare P (if c then m else m') Q E"
  by simp

lemma hoare_snd:
  assumes "hoare I m (\<lambda>_. I) I" and "I s"
  shows "I (snd (m s))"
proof -
  obtain r s' where m: "m s = (r, s')" by (cases "m s")
  from hoareD [OF assms m] show ?thesis using m by (cases r) simp_all
qed

subsection \<open>Well-formed stores\<close>

lemma wf_iff:
  "wellformed s \<longleftrightarrow> (\<forall>h<length (bufs s). in_bounds s (bufs s ! h)) \<and>
     (\<forall>x\<in>set (btris s). lockstep s x) \<and> distinct (proxy_handles s) \<and>
     (\<forall>b\<in>set (batches s). Triangles (cont b) < length (bufs s) \<and>
        Triangles (cont b) \<notin> set (proxy_handles s))"
  unfolding wellformed_def list_all_length [of "in_bounds s"] by (simp add: list_all_iff)

lemma wfx_iff:
  "wfx fs s \<longleftrightarrow> wellformed s \<and> (\<forall>h\<in>set fs. h < length (bufs s) \<and> h \<notin> set (proxy_handles s))"
  by (simp add: wfx_def list_all_iff)

lemma wfx_wf: "wfx fs s \<Longrightarrow> wellformed s"
  by (simp add: wfx_def)

lemma wfx_Nil: "wfx [] s = wellformed s"
  by (simp add: wfx_def)

lemma proxy_handle_set:
  "set (proxy_handles s) = (\<Union>x\<in>set (btris s). {tri x, tmp x})"
  by (auto simp: proxy_handles_def)

lemma in_bounds_ext:
  assumes "in_bounds s b" and "length (arrays s) \<le> length (arrays s')"
    and "\<forall>a<length (arrays s). length (arrays s' ! a) = length (arrays s ! a)"
  shows "in_bounds s' b"
  using assms by (auto simp: in_bounds_def nth_opt_def split: if_splits)

lemma wfx_frame:
  assumes w: "wfx fs s"
    and bt: "btris s' = btris s"
    and ba: "map (\<lambda>b. Triangles (cont b)) (batches s') = map (\<lambda>b. Triangles (cont b)) (batches s)"
    and lb: "length (bufs s) \<le> length (bufs s')"
    and ln: "\<forall>h\<in>set (proxy_handles s). len (bufs s' ! h) = len (bufs s ! h)"
    and ib: "\<forall>h<length (bufs s'). in_bounds s' (bufs s' ! h)"
  shows "wfx fs s'"
proof -
  have ph: "proxy_handles s' = proxy_handles s" using bt by (simp add: proxy_handles_def)
  have w': "wellformed s" using w by (rule wfx_wf)
  have 1: "\<forall>x\<in>set (btris s'). lockstep s' x"
  proof
    fix x assume x: "x \<in> set (btris s')"
    then have "lockstep s x" using w' bt by (simp add: wf_iff)
    moreover have "tri x \<in> set (proxy_handles s)" "tmp x \<in> set (proxy_handles s)"
      using x bt by (auto simp: proxy_handle_set)
    ultimately show "lockstep s' x" using ln lb by (simp add: lockstep_def)
  qed
  have 2: "\<forall>b\<in>set (batches s'). Triangles (cont b) < length (bufs s') \<and>
        Triangles (cont b) \<notin> set (proxy_handles s')"
  proof
    fix b assume "b \<in> set (batches s')"
    then have "Triangles (cont b) \<in> set (map (\<lambda>b. Triangles (cont b)) (batches s'))" by simp
    then have "Triangles (cont b) \<in> set (map (\<lambda>b. Triangles (cont b)) (batches s))"
      using ba by simp
    then obtain b0 where "b0 \<in> set (batches s)" "Triangles (cont b) = Triangles (cont b0)"
      by auto
    then show "Triangles (cont b) < length (bufs s') \<and> Triangles (cont b) \<notin> set (proxy_handles s')"
      using w' lb ph by (simp add: wf_iff) (metis le_trans not_less)
  qed
  have 3: "distinct (proxy_handles s')" using w' ph by (simp add: wf_iff)
  have "wellformed s'" unfolding wf_iff using ib 1 2 3 by blast
  moreover have "\<forall>h\<in>set fs. h < length (bufs s') \<and> h \<notin> set (proxy_handles s')"
    using w lb ph by (auto simp: wfx_iff)
  ultimately show ?thesis by (simp add: wfx_iff)
qed

lemma wfx_deref: "hoare (wfx fs) (deref sel r) (\<lambda>_. wfx fs) wellformed"
  by (auto simp: hoare_def deref_def wfx_wf split: option.splits)

lemma wfx_Len: "hoare (wfx fs) (Triangles_Len h) (\<lambda>_. wfx fs) wellformed"
  by (auto simp: hoare_def Triangles_Len_def bnd_def ret_def deref_def wfx_wf split: option.splits)

lemma wfx_deref_batches:
  "hoare (wfx fs) (deref batches b) (\<lambda>x. wfx (Triangles (cont x) # fs)) wellformed"
proof (rule hoareI)
  fix s r s' assume w: "wfx fs s" and d: "deref batches b s = (r, s')"
  show "case r of Inl e \<Rightarrow> wellformed s' | Inr x \<Rightarrow> wfx (Triangles (cont x) # fs) s'"
  proof (cases "nth_opt (batches s) b")
    case None
    then show ?thesis using w d by (auto simp: deref_def wfx_wf)
  next
    case (Some x)
    then have "x \<in> set (batches s)" by (auto simp: nth_opt_def split: if_splits)
    then have "Triangles (cont x) < length (bufs s) \<and> Triangles (cont x) \<notin> set (proxy_handles s)"
      using w by (simp add: wfx_iff wf_iff)
    then show ?thesis using w d Some by (auto simp: deref_def wfx_iff)
  qed
qed

lemma proxy_handle_bound: "wellformed s \<Longrightarrow> h \<in> set (proxy_handles s) \<Longrightarrow> h < length (bufs s)"
  by (auto simp: wf_iff proxy_handle_set lockstep_def)

lemma wfx_cons:
  "wfx fs s \<Longrightarrow> h < length (bufs s) \<Longrightarrow> h \<notin> set (proxy_handles s) \<Longrightarrow> wfx (h # fs) s"
  by (simp add: wfx_iff)

lemma wf_in_bounds: "wellformed s \<Longrightarrow> nth_opt (bufs s) h = Some b \<Longrightarrow> in_bounds s b"
  by (auto simp: wf_iff nth_opt_def split: if_splits)

lemma Triangles_Update_cases:
  assumes "Triangles_Update h t s = (r, s')"
  obtains (same) "s' = s"
  | (wrote) b c xs where "nth_opt (bufs s) h = Some b" and "nth_opt (bufs s) t = Some c"
      and "nth_opt (arrays s) (arr b) = Some xs" and "off b + len b \<le> length xs"
      and "len b = len c" and "r = Inr ()"
      and "s' = s\<lparr>arrays := (arrays s)[arr b := write_at (off b)
                (map2 (put_fields (props b \<inter> props c)) (view s c) (view s b)) xs]\<rparr>"
proof (cases "nth_opt (bufs s) h")
  case None
  then show ?thesis using assms same by (simp add: Triangles_Update_def monad_defs)
next
  case b: (Some b)
  show ?thesis
  proof (cases "nth_opt (bufs s) t")
    case None
    then show ?thesis using assms same b by (simp add: Triangles_Update_def bnd_def deref_def)
  next
    case c: (Some c)
    show ?thesis
    proof (cases "len b = len c")
      case False
      then show ?thesis using assms same b c by (simp add: Triangles_Update_def bnd_def deref_def panic_def)
    next
      case l: True
      show ?thesis
      proof (cases "nth_opt (arrays s) (arr b)")
        case None
        then show ?thesis using assms same b c l by (simp add: Triangles_Update_def bnd_def deref_def)
      next
        case xs: (Some xs)
        show ?thesis
        proof (cases "nth_opt (arrays s) (arr c)")
          case None
          then show ?thesis using assms same b c l xs by (simp add: Triangles_Update_def bnd_def deref_def)
        next
          case ys: (Some ys)
          show ?thesis
          proof (cases "off b + len b \<le> length xs \<and> off c + len c \<le> length ys")
            case False
            then show ?thesis using assms same b c l xs ys
              by (auto simp: Triangles_Update_def bnd_def deref_def panic_def)
          next
            case True
            show ?thesis
              apply (rule wrote [OF b c xs])
              using assms b c l xs ys True
              by (simp_all add: Triangles_Update_def bnd_def deref_def)
          qed
        qed
      qed
    qed
  qed
qed

text \<open>Overwriting part of an array keeps every length, so every view stays in bounds.\<close>

lemma wfx_write:
  assumes w: "wfx fs s" and a: "a < length (arrays s)" and l: "length ys = length (arrays s ! a)"
  shows "wfx fs (s\<lparr>arrays := (arrays s)[a := ys]\<rparr>)"
proof (rule wfx_frame [OF w])
  let ?s = "s\<lparr>arrays := (arrays s)[a := ys]\<rparr>"
  have e: "\<forall>k<length (arrays s). length (arrays ?s ! k) = length (arrays s ! k)"
    using l a by (simp add: nth_list_update)
  show "\<forall>h<length (bufs ?s). in_bounds ?s (bufs ?s ! h)"
  proof (intro allI impI)
    fix h assume "h < length (bufs ?s)"
    then have "in_bounds s (bufs s ! h)" using w by (simp add: wfx_iff wf_iff)
    from in_bounds_ext [OF this _ e] show "in_bounds ?s (bufs ?s ! h)" by simp
  qed
qed simp_all

lemma wfx_Update: "hoare (wfx fs) (Triangles_Update h t) (\<lambda>_. wfx fs) wellformed"
proof (rule hoareI)
  fix s r s' assume w: "wfx fs s" and u: "Triangles_Update h t s = (r, s')"
  from u show "case r of Inl e \<Rightarrow> wellformed s' | Inr x \<Rightarrow> wfx fs s'"
  proof (cases rule: Triangles_Update_cases)
    case same
    then show ?thesis using w by (cases r) (simp_all add: wfx_wf)
  next
    case (wrote b c xs)
    have lv: "length (view s b) \<le> len b" using wrote by (simp add: view_def)
    have "length (write_at (off b) (map2 (put_fields (props b \<inter> props c)) (view s c) (view s b)) xs)
        = length xs"
      using wrote lv by (intro length_write_at) simp
    then have "wfx fs s'"
      unfolding wrote(7) using wrote(3) by (intro wfx_write [OF w]) (simp_all add: nth_opt_Some)
    then show ?thesis using wrote(6) by simp
  qed
qed

lemma draw_step_frame:
  assumes "draw_step prj bt i s = (r, s')"
  shows "bufs s' = bufs s \<and> batches s' = batches s \<and> btris s' = btris s \<and> bpics s' = bpics s \<and>
    length (arrays s') = length (arrays s) \<and>
    (\<forall>a<length (arrays s). length (arrays s' ! a) = length (arrays s ! a)) \<and>
    (s' = s \<or> (\<exists>x u. nth_opt (btris s) bt = Some x \<and> nth_opt (bufs s) (tmp x) = Some u \<and>
       (\<forall>a. a \<noteq> arr u \<longrightarrow> arrays s' ! a = arrays s ! a)))"
  using assms
  by (auto simp: draw_step_def bnd_def deref_def panic_def nth_list_update nth_opt_Some
      split: option.splits if_splits)

lemma wfx_arrays_only:
  assumes w: "wfx fs s" and "bufs s' = bufs s" and "btris s' = btris s" and "batches s' = batches s"
    and "length (arrays s) \<le> length (arrays s')"
    and "\<forall>a<length (arrays s). length (arrays s' ! a) = length (arrays s ! a)"
  shows "wfx fs s'"
proof (rule wfx_frame [OF w])
  show "\<forall>h<length (bufs s'). in_bounds s' (bufs s' ! h)"
  proof (intro allI impI)
    fix h assume "h < length (bufs s')"
    then have "in_bounds s (bufs s ! h)" using w assms(2) by (simp add: wfx_iff wf_iff)
    from in_bounds_ext [OF this assms(5,6)] show "in_bounds s' (bufs s' ! h)"
      using assms(2) by simp
  qed
qed (simp_all add: assms)

lemma wfx_draw_step: "hoare (wfx fs) (draw_step prj bt i) (\<lambda>_. wfx fs) wellformed"
proof (rule hoareI)
  fix s r s' assume w: "wfx fs s" and u: "draw_step prj bt i s = (r, s')"
  have "wfx fs s'" using draw_step_frame [OF u] by (intro wfx_arrays_only [OF w]) simp_all
  then show "case r of Inl e \<Rightarrow> wellformed s' | Inr x \<Rightarrow> wfx fs s'"
    by (cases r) (simp_all add: wfx_wf)
qed

lemma wfx_draw_loop: "hoare (wfx fs) (draw_loop prj bt is) (\<lambda>_. wfx fs) wellformed"
proof (induction "is")
  case Nil
  show ?case by (simp add: hoare_ret)
next
  case (Cons i "is")
  show ?case
    by (simp, rule hoare_bnd [OF wfx_draw_step]) (rule Cons.IH)
qed

lemma wfx_alloc:
  assumes w: "wfx fs s" and ib: "in_bounds (s\<lparr>arrays := arrays s @ as, bufs := bufs s @ [c]\<rparr>) c"
  shows "wfx (length (bufs s) # fs) (s\<lparr>arrays := arrays s @ as, bufs := bufs s @ [c]\<rparr>)"
proof -
  let ?s = "s\<lparr>arrays := arrays s @ as, bufs := bufs s @ [c]\<rparr>"
  have w': "wellformed s" using w by (rule wfx_wf)
  have old: "\<And>h. h \<in> set (proxy_handles s) \<Longrightarrow> h < length (bufs s)"
    using w' by (rule proxy_handle_bound)
  have "wfx fs ?s"
  proof (rule wfx_frame [OF w])
    show "\<forall>h\<in>set (proxy_handles s). len (bufs ?s ! h) = len (bufs s ! h)"
      using old by (simp add: nth_append)
    show "\<forall>h<length (bufs ?s). in_bounds ?s (bufs ?s ! h)"
    proof (intro allI impI)
      fix h assume h: "h < length (bufs ?s)"
      show "in_bounds ?s (bufs ?s ! h)"
      proof (cases "h < length (bufs s)")
        case True
        then have "in_bounds s (bufs s ! h)" using w' by (simp add: wf_iff)
        then have "in_bounds ?s (bufs s ! h)"
          by (rule in_bounds_ext) (simp_all add: nth_append)
        then show ?thesis using True by (simp add: nth_append)
      next
        case False
        then have "h = length (bufs s)" using h by simp
        then show ?thesis using ib by simp
      qed
    qed
  qed simp_all
  moreover have "length (bufs s) \<notin> set (proxy_handles ?s)"
    using old by (auto simp: proxy_handles_def)
  ultimately show ?thesis by (intro wfx_cons) simp_all
qed

lemma Triangles_Slice_cases:
  assumes "Triangles_Slice h i j s = (r, s')"
  obtains (same) "s' = s" "\<exists>e. r = Inl e"
  | (sliced) b where "nth_opt (bufs s) h = Some b" and "0 \<le> i" and "i \<le> j" and "j \<le> int (len b)"
      and "r = Inr (length (bufs s))"
      and "s' = s\<lparr>bufs := bufs s @ [b\<lparr>off := off b + nat i, len := nat (j - i)\<rparr>]\<rparr>"
proof (cases "nth_opt (bufs s) h")
  case None
  then show ?thesis using assms by (intro same) (auto simp: Triangles_Slice_def bnd_def deref_def)
next
  case (Some b)
  show ?thesis
  proof (cases "0 \<le> i \<and> i \<le> j \<and> j \<le> int (len b)")
    case True
    then show ?thesis using assms Some
      by (intro sliced [of b]) (simp_all add: Triangles_Slice_def bnd_def deref_def)
  next
    case False
    then show ?thesis using assms Some
      by (intro same) (auto simp: Triangles_Slice_def bnd_def deref_def panic_def)
  qed
qed

lemma Triangles_Copy_cases:
  assumes "Triangles_Copy h s = (r, s')"
  obtains (same) "s' = s" "\<exists>e. r = Inl e"
  | (copied) b where "nth_opt (bufs s) h = Some b"
      and "r = Inr (length (bufs s))"
      and "s' = s\<lparr>arrays := arrays s @ [view s b],
                   bufs := bufs s @ [b\<lparr>arr := length (arrays s), off := 0\<rparr>]\<rparr>"
proof (cases "nth_opt (bufs s) h")
  case None
  then show ?thesis using assms by (intro same) (auto simp: Triangles_Copy_def bnd_def deref_def)
next
  case (Some b)
  show ?thesis
  proof (cases "nth_opt (arrays s) (arr b)")
    case None
    then show ?thesis using assms Some
      by (intro same) (auto simp: Triangles_Copy_def bnd_def deref_def)
  next
    case (Some xs)
    then show ?thesis using assms \<open>nth_opt (bufs s) h = Some b\<close>
      by (intro copied [of b]) (simp_all add: Triangles_Copy_def bnd_def deref_def)
  qed
qed

lemma MakeTrianglesData_cases:
  assumes "MakeTrianglesData dv n s = (r, s')"
  obtains (same) "s' = s" "\<exists>e. r = Inl e"
  | (made) "0 \<le> n" and "r = Inr (length (bufs s))"
      and "s' = s\<lparr>arrays := arrays s @ [replicate (nat n) dv],
                bufs := bufs s @ [\<lparr>arr = length (arrays s), off = 0, len = nat n,
                  props = all_fields\<rparr>]\<rparr>"
proof (cases "n < 0")
  case True
  then show ?thesis using assms by (intro same) (auto simp: MakeTrianglesData_def panic_def)
next
  case False
  then show ?thesis using assms by (intro made) (simp_all add: MakeTrianglesData_def)
qed

lemma wfx_Slice: "hoare (wfx fs) (Triangles_Slice h i j) (\<lambda>x. wfx (x # fs)) wellformed"
proof (rule hoareI)
  fix s r s' assume w: "wfx fs s" and u: "Triangles_Slice h i j s = (r, s')"
  from u show "case r of Inl e \<Rightarrow> wellformed s' | Inr x \<Rightarrow> wfx (x # fs) s'"
  proof (cases rule: Triangles_Slice_cases)
    case same
    then show ?thesis using w by (auto simp: wfx_wf)
  next
    case (sliced b)
    let ?c = "b\<lparr>off := off b + nat i, len := nat (j - i)\<rparr>"
    have "in_bounds s b" using w sliced(1) by (auto intro: wf_in_bounds wfx_wf)
    then have "in_bounds s ?c" using sliced(2-4) by (auto simp: in_bounds_def split: option.splits)
    then have "in_bounds (s\<lparr>arrays := arrays s @ [], bufs := bufs s @ [?c]\<rparr>) ?c"
      by (simp add: in_bounds_def)
    from wfx_alloc [OF w this] show ?thesis using sliced(5,6) by simp
  qed
qed

lemma wfx_Copy: "hoare (wfx fs) (Triangles_Copy h) (\<lambda>x. wfx (x # fs)) wellformed"
proof (rule hoareI)
  fix s r s' assume w: "wfx fs s" and u: "Triangles_Copy h s = (r, s')"
  from u show "case r of Inl e \<Rightarrow> wellformed s' | Inr x \<Rightarrow> wfx (x # fs) s'"
  proof (cases rule: Triangles_Copy_cases)
    case same
    then show ?thesis using w by (auto simp: wfx_wf)
  next
    case (copied b)
    let ?c = "b\<lparr>arr := length (arrays s), off := 0\<rparr>"
    have "in_bounds s b" using w copied(1) by (auto intro: wf_in_bounds wfx_wf)
    then have "length (view s b) = len b" by (rule in_boundsD)
    then have "in_bounds (s\<lparr>arrays := arrays s @ [view s b], bufs := bufs s @ [?c]\<rparr>) ?c"
      by (simp add: in_bounds_def nth_opt_def)
    from wfx_alloc [OF w this] show ?thesis using copied(2,3) by simp
  qed
qed

lemma wfx_MakeTrianglesData: "hoare (wfx fs) (MakeTrianglesData dv n) (\<lambda>x. wfx (x # fs)) wellformed"
proof (rule hoareI)
  fix s :: "('a, 'b, 'c) store" and r s'
  assume w: "wfx fs s" and u: "MakeTrianglesData dv n s = (r, s')"
  from u show "case r of Inl e \<Rightarrow> wellformed s' | Inr x \<Rightarrow> wfx (x # fs) s'"
  proof (cases rule: MakeTrianglesData_cases)
    case same
    then show ?thesis using w by (auto simp: wfx_wf)
  next
    case made
    let ?c = "\<lparr>arr = length (arrays s), off = 0, len = nat n, props = all_fields\<rparr>"
    have "in_bounds (s\<lparr>arrays := arrays s @ [replicate (nat n) dv], bufs := bufs s @ [?c]\<rparr>) ?c"
      by (simp add: in_bounds_def nth_opt_def)
    from wfx_alloc [OF w this] show ?thesis using made(2,3) by simp
  qed
qed

lemma Triangles_SetLen_cases:
  assumes u: "Triangles_SetLen dv h n s = (r, s')" and w: "wellformed s"
  obtains (same) "s' = s" "\<exists>e. r = Inl e"
  | (resized) b b' where "nth_opt (bufs s) h = Some b" and "0 \<le> n" and "r = Inr ()"
    and "btris s' = btris s" and "batches s' = batches s" and "bpics s' = bpics s"
    and "bufs s' = (bufs s)[h := b']" and "len b' = nat n" and "props b' = props b"
    and "arr b' = arr b \<or> arr b' = length (arrays s)"
    and "in_bounds s' b'"
    and "length (arrays s) \<le> length (arrays s')"
    and "\<forall>a<length (arrays s). a \<noteq> arr b \<longrightarrow> arrays s' ! a = arrays s ! a"
    and "\<forall>a<length (arrays s). length (arrays s' ! a) = length (arrays s ! a)"
proof (cases "nth_opt (bufs s) h")
  case None
  then show ?thesis using u by (intro same) (auto simp: Triangles_SetLen_def bnd_def deref_def)
next
  case (Some b)
  show ?thesis
  proof (cases "n < 0")
    case True
    then show ?thesis using u Some
      by (intro same) (auto simp: Triangles_SetLen_def bnd_def deref_def panic_def)
  next
    case False
    then have n: "0 \<le> n" by simp
    from Triangles_SetLen_result [OF Some wf_in_bounds [OF w Some] n, of dv]
    obtain s'' b' where "Triangles_SetLen dv h n s = (Inr (), s'')"
      and p: "btris s'' = btris s" "batches s'' = batches s" "bpics s'' = bpics s"
      "bufs s'' = (bufs s)[h := b']" "len b' = nat n" "props b' = props b"
      "arr b' = arr b \<or> arr b' = length (arrays s)" "in_bounds s'' b'"
      "length (arrays s) \<le> length (arrays s'')"
      "\<forall>a<length (arrays s). a \<noteq> arr b \<longrightarrow> arrays s'' ! a = arrays s ! a"
      "\<forall>a<length (arrays s). length (arrays s'' ! a) = length (arrays s ! a)"
      by metis
    then have "r = Inr ()" "s' = s''" using u by simp_all
    then show ?thesis using p Some n by (intro resized [of b b']) simp_all
  qed
qed

lemma wfx_SetLen:
  assumes "h \<in> set fs"
  shows "hoare (wfx fs) (Triangles_SetLen dv h n) (\<lambda>_. wfx fs) wellformed"
proof (rule hoareI)
  fix s r s' assume w: "wfx fs s" and u: "Triangles_SetLen dv h n s = (r, s')"
  have w': "wellformed s" using w by (rule wfx_wf)
  have hp: "h \<notin> set (proxy_handles s)" using w assms by (simp add: wfx_iff)
  from u w' show "case r of Inl e \<Rightarrow> wellformed s' | Inr x \<Rightarrow> wfx fs s'"
  proof (cases rule: Triangles_SetLen_cases)
    case same
    then show ?thesis using w by (auto simp: wfx_wf)
  next
    case (resized b b')
    have "wfx fs s'"
    proof (rule wfx_frame [OF w])
      show "\<forall>k\<in>set (proxy_handles s). len (bufs s' ! k) = len (bufs s ! k)"
        using resized(7) hp by (metis nth_list_update_neq)
      show "\<forall>k<length (bufs s'). in_bounds s' (bufs s' ! k)"
      proof (intro allI impI)
        fix k assume k: "k < length (bufs s')"
        show "in_bounds s' (bufs s' ! k)"
        proof (cases "k = h")
          case True
          then show ?thesis using resized(7,11) k by simp
        next
          case False
          then have "in_bounds s (bufs s ! k)" using w' k resized(7) by (simp add: wf_iff)
          from in_bounds_ext [OF this resized(12,14)] show ?thesis
            using False resized(7) by simp
        qed
      qed
    qed (simp_all add: resized)
    then show ?thesis using resized(3) by simp
  qed
qed

lemma batch_write_frame:
  assumes "nth_opt (batches s) b = Some x" and "Triangles (cont y) = Triangles (cont x)"
  shows "map (\<lambda>b. Triangles (cont b)) ((batches s)[b := y]) = map (\<lambda>b. Triangles (cont b)) (batches s)"
  using assms by (auto simp: nth_opt_Some list_eq_iff_nth_eq nth_list_update)

lemma wfx_batch_write:
  assumes w: "wfx fs s" and "nth_opt (batches s) b = Some x"
    and "Triangles (cont y) = Triangles (cont x)"
  shows "wfx fs (s\<lparr>batches := (batches s)[b := y]\<rparr>)"
proof (rule wfx_frame [OF w])
  show "\<forall>h<length (bufs (s\<lparr>batches := (batches s)[b := y]\<rparr>)).
      in_bounds (s\<lparr>batches := (batches s)[b := y]\<rparr>) (bufs (s\<lparr>batches := (batches s)[b := y]\<rparr>) ! h)"
    using w by (simp add: wfx_iff wf_iff in_bounds_def)
qed (simp_all add: batch_write_frame [OF assms(2,3)])

lemma wfx_Dirty: "hoare (wfx fs) (Batch_Dirty b) (\<lambda>_. wfx fs) wellformed"
proof (rule hoareI)
  fix s r s' assume w: "wfx fs s" and u: "Batch_Dirty b s = (r, s')"
  show "case r of Inl e \<Rightarrow> wellformed s' | Inr x \<Rightarrow> wfx fs s'"
  proof (cases "nth_opt (batches s) b")
    case None
    then show ?thesis using u w by (auto simp: Batch_Dirty_def bnd_def deref_def wfx_wf)
  next
    case (Some x)
    then show ?thesis using u wfx_batch_write [OF w Some, of "x\<lparr>cont := Drawer_Dirty (cont x)\<rparr>"]
      by (auto simp: Batch_Dirty_def bnd_def deref_def Drawer_Dirty_def)
  qed
qed

lemma wfx_SetMatrix: "hoare (wfx fs) (Batch_SetMatrix b m) (\<lambda>_. wfx fs) wellformed"
proof (rule hoareI)
  fix s r s' assume w: "wfx fs s" and u: "Batch_SetMatrix b m s = (r, s')"
  show "case r of Inl e \<Rightarrow> wellformed s' | Inr x \<Rightarrow> wfx fs s'"
  proof (cases "nth_opt (batches s) b")
    case None
    then show ?thesis using u w by (auto simp: Batch_SetMatrix_def bnd_def deref_def wfx_wf)
  next
    case (Some x)
    then show ?thesis using u wfx_batch_write [OF w Some, of "x\<lparr>mat := m\<rparr>"]
      by (auto simp: Batch_SetMatrix_def bnd_def deref_def)
  qed
qed

lemma wfx_SetColorMask: "hoare (wfx fs) (Batch_SetColorMask conv b c) (\<lambda>_. wfx fs) wellformed"
proof (rule hoareI)
  fix s r s' assume w: "wfx fs s" and u: "Batch_SetColorMask conv b c s = (r, s')"
  show "case r of Inl e \<Rightarrow> wellformed s' | Inr x \<Rightarrow> wfx fs s'"
  proof (cases "nth_opt (batches s) b")
    case None
    then show ?thesis using u w by (auto simp: Batch_SetColorMask_def bnd_def deref_def wfx_wf)
  next
    case (Some x)
    then show ?thesis
      using u wfx_batch_write [OF w Some, of "x\<lparr>col := white\<rparr>"]
        wfx_batch_write [OF w Some, of "x\<lparr>col := ToRGBA conv (the c)\<rparr>"]
      by (auto simp: Batch_SetColorMask_def bnd_def deref_def split: if_splits)
  qed
qed

lemma wfx_MakePicture: "hoare (wfx fs) (Batch_MakePicture b p) (\<lambda>_. wfx fs) wellformed"
proof (rule hoareI)
  fix s r s' assume w: "wfx fs s" and u: "Batch_MakePicture b p s = (r, s')"
  have "s' = s \<or> (\<exists>ps. s' = s\<lparr>bpics := ps\<rparr>)"
    using u by (auto simp: Batch_MakePicture_def bnd_def deref_def panic_def
        split: option.splits if_splits sum.splits)
  moreover have "\<And>ps. wfx fs (s\<lparr>bpics := ps\<rparr>)"
    by (rule wfx_arrays_only [OF w]) simp_all
  ultimately have "wfx fs s'" using w by auto
  then show "case r of Inl e \<Rightarrow> wellformed s' | Inr x \<Rightarrow> wfx fs s'"
    by (cases r) (simp_all add: wfx_wf)
qed

subsection \<open>Every operation keeps the store well formed\<close>

lemma wf_Clear: "hoare (wfx []) (Batch_Clear dv b) (\<lambda>_. wfx []) wellformed"
  unfolding Batch_Clear_def
  apply (rule hoare_bnd [OF wfx_deref_batches])
  apply (rule hoare_bnd [OF wfx_SetLen])
   apply simp
  apply (rule hoare_post [OF wfx_Dirty])
   apply (simp_all add: wfx_iff)
  done

lemma wf_Len: "hoare (wfx []) (batchTriangles_Len bt) (\<lambda>_. wfx []) wellformed"
  unfolding batchTriangles_Len_def
  by (rule hoare_bnd [OF wfx_deref]) (rule wfx_Len)

lemma wf_Update: "hoare (wfx []) (batchTriangles_Update bt t) (\<lambda>_. wfx []) wellformed"
  unfolding batchTriangles_Update_def
  by (rule hoare_bnd [OF wfx_deref]) (rule wfx_Update)

lemma wf_draw: "hoare (wfx []) (batchTriangles_draw prj dv bt bp) (\<lambda>_. wfx []) wellformed"
  unfolding batchTriangles_draw_def
  apply (rule hoare_bnd [OF wfx_deref])
  apply (rule hoare_bnd [OF wfx_Update])
  apply (rule hoare_bnd [OF wfx_deref])
  apply (rule hoare_bnd [OF wfx_draw_loop])
  apply (rule hoare_bnd [OF wfx_deref_batches])
  apply (rule hoare_bnd [OF wfx_Len])
  apply (rule hoare_bnd [OF wfx_Len])
  apply (rule hoare_bnd [OF wfx_SetLen])
   apply simp
  apply (rule hoare_bnd [OF wfx_Len])
  apply (rule hoare_bnd [OF wfx_Len])
  apply (rule hoare_bnd [OF wfx_Len])
  apply (rule hoare_bnd [OF wfx_Slice])
  apply (rule hoare_bnd [OF wfx_Update])
  apply (rule hoare_bnd [OF wfx_Update])
  apply (rule hoare_post [OF wfx_Dirty])
   apply (simp_all add: wfx_iff)
  done

lemma wf_Draw: "hoare (wfx []) (batchTriangles_Draw prj dv bt) (\<lambda>_. wfx []) wellformed"
  unfolding batchTriangles_Draw_def by (rule wf_draw)

lemma wf_PictureDraw: "hoare (wfx []) (batchPicture_Draw prj dv bp t) (\<lambda>_. wfx []) wellformed"
proof (cases t)
  case (TTbatch bt)
  show ?thesis
    unfolding batchPicture_Draw_def TTbatch
    apply simp
    apply (rule hoare_bnd [OF wfx_deref])
    apply (rule hoare_bnd [OF wfx_deref])
    apply (rule hoare_if)
     apply (rule hoare_panic)
     apply (simp add: wfx_Nil)
    apply (rule wf_draw)
    done
qed (auto simp: batchPicture_Draw_def wfx_Nil intro!: hoare_panic)

lemma wf_add_proxy:
  assumes w: "wellformed s"
    and s': "s' = s\<lparr>arrays := arrays s @ as, bufs := bufs s @ [c, d],
        btris := btris s @ [\<lparr>tri = length (bufs s), tmp = Suc (length (bufs s)), dst = b\<rparr>]\<rparr>"
    and ic: "in_bounds s' c" and id: "in_bounds s' d" and l: "len c = len d"
  shows "wellformed s'"
proof -
  let ?n = "length (bufs s)"
  have old: "\<And>h. h \<in> set (proxy_handles s) \<Longrightarrow> h < ?n"
    using w by (rule proxy_handle_bound)
  have ph: "proxy_handles s' = proxy_handles s @ [?n, Suc ?n]"
    by (simp add: s' proxy_handles_def)
  have 1: "\<forall>h<length (bufs s'). in_bounds s' (bufs s' ! h)"
  proof (intro allI impI)
    fix h assume h: "h < length (bufs s')"
    have "h < Suc (Suc ?n)" using h by (simp add: s')
    then consider "h < ?n" | "h = ?n" | "h = Suc ?n" by linarith
    then show "in_bounds s' (bufs s' ! h)"
    proof cases
      case 1
      then have "in_bounds s (bufs s ! h)" using w by (simp add: wf_iff)
      then have "in_bounds s' (bufs s ! h)"
        by (rule in_bounds_ext) (simp_all add: s' nth_append)
      then show ?thesis using 1 by (simp add: s' nth_append)
    next
      case 2
      then show ?thesis using ic by (simp add: s' nth_append)
    next
      case 3
      then show ?thesis using id by (simp add: s' nth_append)
    qed
  qed
  have 2: "\<forall>x\<in>set (btris s'). lockstep s' x"
  proof
    fix x assume "x \<in> set (btris s')"
    then consider "x \<in> set (btris s)" | "x = \<lparr>tri = ?n, tmp = Suc ?n, dst = b\<rparr>"
      by (auto simp: s')
    then show "lockstep s' x"
    proof cases
      case 1
      then have "lockstep s x" using w by (simp add: wf_iff)
      then show ?thesis by (simp add: lockstep_def s' nth_append)
    next
      case 2
      then show ?thesis using l by (simp add: lockstep_def s' nth_append)
    qed
  qed
  have "?n \<notin> set (proxy_handles s)" "Suc ?n \<notin> set (proxy_handles s)"
    using old [of ?n] old [of "Suc ?n"] by auto
  moreover have "distinct (proxy_handles s)" using w by (simp add: wf_iff)
  ultimately have 3: "distinct (proxy_handles s')" by (simp add: ph)
  have 4: "\<forall>x\<in>set (batches s'). Triangles (cont x) < length (bufs s') \<and>
        Triangles (cont x) \<notin> set (proxy_handles s')"
  proof
    fix x assume "x \<in> set (batches s')"
    then have "x \<in> set (batches s)" by (simp add: s')
    then have "Triangles (cont x) < ?n" "Triangles (cont x) \<notin> set (proxy_handles s)"
      using w by (simp_all add: wf_iff)
    moreover have "length (bufs s') = Suc (Suc ?n)" by (simp add: s')
    ultimately show "Triangles (cont x) < length (bufs s') \<and> Triangles (cont x) \<notin> set (proxy_handles s')"
      by (auto simp: ph)
  qed
  show ?thesis unfolding wf_iff using 1 2 3 4 by blast
qed

lemma wf_MakeTriangles:
  assumes w: "wellformed s"
  shows "wellformed (snd (Batch_MakeTriangles dv b t s))"
proof (cases "nth_opt (bufs s) t")
  case None
  then have "Batch_MakeTriangles dv b t s = (Inl NilPointer, s)"
    by (simp add: Batch_MakeTriangles_def Triangles_Copy_def bnd_def deref_def)
  then show ?thesis using w by simp
next
  case (Some T)
  have ib: "in_bounds s T" using w Some by (rule wf_in_bounds)
  then have lv: "length (view s T) = len T" by (rule in_boundsD)
  show ?thesis
    unfolding MakeTriangles_eq [OF Some ib, of dv b] snd_conv
    by (rule wf_add_proxy [OF w refl]) (simp_all add: in_bounds_def nth_opt_def nth_append lv)
qed

lemma wf_proxy:
  assumes "wellformed s" and "nth_opt (btris s) bt = Some x"
  obtains T U where "nth_opt (bufs s) (tri x) = Some T" and "nth_opt (bufs s) (tmp x) = Some U"
    and "in_bounds s T" and "in_bounds s U" and "len T = len U" and "tri x \<noteq> tmp x"
    and "tri x \<in> set (proxy_handles s)" and "tmp x \<in> set (proxy_handles s)"
proof -
  have x: "x \<in> set (btris s)" using assms(2) by (auto simp: nth_opt_def split: if_splits)
  then have l: "lockstep s x" using assms(1) by (simp add: wf_iff)
  have p: "tri x \<in> set (proxy_handles s)" "tmp x \<in> set (proxy_handles s)"
    using x by (auto simp: proxy_handle_set)
  obtain i where i: "i < length (btris s)" "btris s ! i = x"
    using x by (auto simp: in_set_conv_nth)
  have "distinct (concat (map (\<lambda>x. [tri x, tmp x]) (btris s)))"
    using assms(1) by (simp add: wf_iff proxy_handles_def)
  then have "distinct [tri x, tmp x]"
    using x by (auto simp: distinct_concat_iff)
  then have n: "tri x \<noteq> tmp x" by simp
  have T: "nth_opt (bufs s) (tri x) = Some (bufs s ! tri x)"
    and U: "nth_opt (bufs s) (tmp x) = Some (bufs s ! tmp x)"
    using l by (simp_all add: lockstep_def nth_opt_def)
  show thesis
    using that [OF T U wf_in_bounds [OF assms(1) T] wf_in_bounds [OF assms(1) U] _ n p] l
    by (simp add: lockstep_def)
qed

lemma wf_Slice:
  assumes w: "wellformed s"
  shows "wellformed (snd (batchTriangles_Slice bt i j s))"
proof (cases "nth_opt (btris s) bt")
  case None
  then show ?thesis using w by (simp add: batchTriangles_Slice_def bnd_def deref_def)
next
  case (Some x)
  from w Some obtain T U where T: "nth_opt (bufs s) (tri x) = Some T"
    and U: "nth_opt (bufs s) (tmp x) = Some U"
    and ib: "in_bounds s T" "in_bounds s U" and l: "len T = len U"
    by (rule wf_proxy)
  have d: "deref btris bt s = (Inr x, s)" using Some by (simp add: deref_def)
  show ?thesis
  proof (cases "0 \<le> i \<and> i \<le> j \<and> j \<le> int (len T)")
    case False
    then have "Triangles_Slice (tri x) i j s = (Inl OutOfRange, s)"
      using T by (auto simp: Triangles_Slice_def bnd_def deref_def panic_def)
    then show ?thesis using w d by (simp add: batchTriangles_Slice_def bnd_def)
  next
    case True
    define c where "c = T\<lparr>off := off T + nat i, len := nat (j - i)\<rparr>"
    define e where "e = U\<lparr>off := off U + nat i, len := nat (j - i)\<rparr>"
    define s1 where "s1 = s\<lparr>bufs := bufs s @ [c]\<rparr>"
    have 1: "Triangles_Slice (tri x) i j s = (Inr (length (bufs s)), s1)"
      using Triangles_Slice_eq [OF T, of i j] True by (simp add: s1_def c_def)
    have U1: "nth_opt (bufs s1) (tmp x) = Some U"
      using U by (simp add: s1_def nth_opt_def nth_append split: if_splits)
    have 2: "Triangles_Slice (tmp x) i j s1 = (Inr (Suc (length (bufs s))),
        s1\<lparr>bufs := bufs s1 @ [e]\<rparr>)"
      using Triangles_Slice_eq [OF U1, of i j] True l by (simp add: s1_def e_def)
    have r: "snd (batchTriangles_Slice bt i j s) = s\<lparr>arrays := arrays s @ [], bufs := bufs s @ [c, e],
        btris := btris s @ [\<lparr>tri = length (bufs s), tmp = Suc (length (bufs s)),
          dst = batchTriangles.dst x\<rparr>]\<rparr>"
      by (simp add: batchTriangles_Slice_def bnd_def d 1 2) (simp add: s1_def)
    have ic: "in_bounds s c" using ib(1) True by (auto simp: in_bounds_def c_def split: option.splits)
    have ie: "in_bounds s e" using ib(2) True l by (auto simp: in_bounds_def e_def split: option.splits)
    show ?thesis
      unfolding r using ic ie
      by (intro wf_add_proxy [OF w refl]) (simp_all add: in_bounds_def c_def e_def)
  qed
qed

lemma wf_handles_disjoint:
  assumes w: "wellformed s" and x: "x \<in> set (btris s)" and y: "y \<in> set (btris s)" and n: "y \<noteq> x"
  shows "tri y \<noteq> tri x \<and> tri y \<noteq> tmp x \<and> tmp y \<noteq> tri x \<and> tmp y \<noteq> tmp x"
proof -
  let ?f = "\<lambda>x. [tri x, tmp x]"
  have d: "distinct (concat (map ?f (btris s)))"
    using w by (simp add: wf_iff proxy_handles_def)
  have ne: "removeAll [] (map ?f (btris s)) = map ?f (btris s)"
    by (rule removeAll_id) auto
  from d have dm: "distinct (map ?f (btris s))"
    and dj: "\<And>ys zs. ys \<in> set (map ?f (btris s)) \<Longrightarrow> zs \<in> set (map ?f (btris s)) \<Longrightarrow>
        ys \<noteq> zs \<Longrightarrow> set ys \<inter> set zs = {}"
    unfolding distinct_concat_iff ne by blast+
  show ?thesis
  proof (cases "?f y = ?f x")
    case True
    have "inj_on ?f (set (btris s))" using dm by (simp add: distinct_map)
    then have "y = x" using True x y by (auto dest: inj_onD)
    then show ?thesis using n by simp
  next
    case False
    have "set (?f y) \<inter> set (?f x) = {}"
      using x y False by (intro dj) auto
    then show ?thesis by auto
  qed
qed

lemma wf_SetLen:
  assumes w: "wellformed s"
  shows "wellformed (snd (batchTriangles_SetLen dv bt n s))"
proof (cases "nth_opt (btris s) bt")
  case None
  then show ?thesis using w by (simp add: batchTriangles_SetLen_def bnd_def deref_def)
next
  case (Some x)
  from w Some obtain T U where T: "nth_opt (bufs s) (tri x) = Some T"
    and U: "nth_opt (bufs s) (tmp x) = Some U"
    and ib: "in_bounds s T" "in_bounds s U" and l: "len T = len U" and ne: "tri x \<noteq> tmp x"
    by (rule wf_proxy)
  have xs: "x \<in> set (btris s)" using Some by (auto simp: nth_opt_def split: if_splits)
  have d: "deref btris bt s = (Inr x, s)" using Some by (simp add: deref_def)
  obtain r1 s1 where 1: "Triangles_SetLen dv (tri x) n s = (r1, s1)"
    by (cases "Triangles_SetLen dv (tri x) n s")
  from 1 w show ?thesis
  proof (cases rule: Triangles_SetLen_cases)
    case same
    then show ?thesis using w d 1 by (auto simp: batchTriangles_SetLen_def bnd_def)
  next
    case (resized b b1)
    have U1: "nth_opt (bufs s1) (tmp x) = Some U"
      using U resized(7) ne by (simp add: nth_opt_def split: if_splits)
    have ib1: "in_bounds s1 U" using ib(2) resized(12,14) by (rule in_bounds_ext)
    from Triangles_SetLen_result [OF U1 ib1 resized(2), of dv]
    obtain s2 b2 where 2: "Triangles_SetLen dv (tmp x) n s1 = (Inr (), s2)"
      and p: "btris s2 = btris s1" "batches s2 = batches s1"
      "bufs s2 = (bufs s1)[tmp x := b2]" "len b2 = nat n" "in_bounds s2 b2"
      "length (arrays s1) \<le> length (arrays s2)"
      "\<forall>a<length (arrays s1). length (arrays s2 ! a) = length (arrays s1 ! a)"
      by metis
    have r: "snd (batchTriangles_SetLen dv bt n s) = s2"
      using resized(3) by (simp add: batchTriangles_SetLen_def bnd_def d 1 2)
    have bf: "bufs s2 = (bufs s)[tri x := b1, tmp x := b2]" using p(3) resized(7) by simp
    have lt: "tri x < length (bufs s)" "tmp x < length (bufs s)"
      using T U by (simp_all add: nth_opt_Some)
    have ext: "\<And>c. in_bounds s c \<Longrightarrow> in_bounds s2 c"
    proof -
      fix c assume "in_bounds s c"
      then have "in_bounds s1 c" using resized(12,14) by (rule in_bounds_ext)
      then show "in_bounds s2 c" using p(6,7) by (rule in_bounds_ext)
    qed
    have ph: "proxy_handles s2 = proxy_handles s"
      using p(1) resized(4) by (simp add: proxy_handles_def)
    have V: "\<forall>h<length (bufs s2). in_bounds s2 (bufs s2 ! h)"
    proof (intro allI impI)
      fix h assume h: "h < length (bufs s2)"
      consider "h = tmp x" | "h = tri x" "h \<noteq> tmp x" | "h \<noteq> tri x" "h \<noteq> tmp x" by blast
      then show "in_bounds s2 (bufs s2 ! h)"
      proof cases
        case 1
        then show ?thesis using p(5) lt by (simp add: bf)
      next
        case 2
        have "in_bounds s2 b1" using resized(11) p(6,7) by (rule in_bounds_ext)
        then show ?thesis using 2 lt by (simp add: bf)
      next
        case 3
        then have "in_bounds s (bufs s ! h)" using w h by (simp add: wf_iff bf)
        then show ?thesis using 3 ext by (simp add: bf)
      qed
    qed
    have L: "\<forall>y\<in>set (btris s2). lockstep s2 y"
    proof
      fix y assume "y \<in> set (btris s2)"
      then have y: "y \<in> set (btris s)" using p(1) resized(4) by simp
      show "lockstep s2 y"
      proof (cases "y = x")
        case True
        then show ?thesis using lt ne resized(8) p(4) by (simp add: lockstep_def bf)
      next
        case False
        from wf_handles_disjoint [OF w xs y False]
        have "bufs s2 ! tri y = bufs s ! tri y" "bufs s2 ! tmp y = bufs s ! tmp y"
          by (simp_all add: bf)
        moreover have "lockstep s y" using w y by (simp add: wf_iff)
        ultimately show ?thesis by (simp add: lockstep_def bf)
      qed
    qed
    have K: "\<forall>c\<in>set (batches s2). Triangles (cont c) < length (bufs s2) \<and>
        Triangles (cont c) \<notin> set (proxy_handles s2)"
      using w p(2) resized(5) by (simp add: wf_iff ph bf)
    have "distinct (proxy_handles s2)" using w by (simp add: wf_iff ph)
    then have "wellformed s2" unfolding wf_iff using V L K by blast
    then show ?thesis by (simp add: r)
  qed
qed

lemma wf_Copy:
  assumes w: "wellformed s"
  shows "wellformed (snd (batchTriangles_Copy bt s))"
proof (cases "nth_opt (btris s) bt")
  case None
  then show ?thesis using w by (simp add: batchTriangles_Copy_def bnd_def deref_def)
next
  case (Some x)
  from w Some obtain T U where T: "nth_opt (bufs s) (tri x) = Some T"
    and U: "nth_opt (bufs s) (tmp x) = Some U"
    and ib: "in_bounds s T" "in_bounds s U" and l: "len T = len U"
    by (rule wf_proxy)
  have d: "deref btris bt s = (Inr x, s)" using Some by (simp add: deref_def)
  define c where "c = T\<lparr>arr := length (arrays s), off := 0\<rparr>"
  define e where "e = U\<lparr>arr := Suc (length (arrays s)), off := 0\<rparr>"
  define s1 where "s1 = s\<lparr>arrays := arrays s @ [view s T], bufs := bufs s @ [c]\<rparr>"
  have 1: "Triangles_Copy (tri x) s = (Inr (length (bufs s)), s1)"
    using Triangles_Copy_eq [OF T ib(1)] by (simp add: s1_def c_def)
  have U1: "nth_opt (bufs s1) (tmp x) = Some U"
    using U by (simp add: s1_def nth_opt_def nth_append split: if_splits)
  have ib1: "in_bounds s1 U"
    using ib(2) by (rule in_bounds_ext) (simp_all add: s1_def nth_append)
  have aU: "arr U < length (arrays s)" using ib(2) by (rule in_boundsD)
  have v1: "view s1 U = view s U" using aU by (simp add: view_def nth_opt_def s1_def nth_append)
  have 2: "Triangles_Copy (tmp x) s1 = (Inr (Suc (length (bufs s))),
      s1\<lparr>arrays := arrays s1 @ [view s U], bufs := bufs s1 @ [e]\<rparr>)"
    using Triangles_Copy_eq [OF U1 ib1] v1 by (simp add: s1_def e_def)
  have r: "snd (batchTriangles_Copy bt s) = s\<lparr>arrays := arrays s @ [view s T, view s U],
      bufs := bufs s @ [c, e],
      btris := btris s @ [\<lparr>tri = length (bufs s), tmp = Suc (length (bufs s)),
        dst = batchTriangles.dst x\<rparr>]\<rparr>"
    by (simp add: batchTriangles_Copy_def bnd_def d 1 2) (simp add: s1_def)
  have lv: "length (view s T) = len T" "length (view s U) = len U"
    using ib by (auto elim: in_boundsD)
  show ?thesis
    unfolding r using lv l
    by (intro wf_add_proxy [OF w refl]) (simp_all add: in_bounds_def nth_opt_def nth_append c_def e_def)
qed

lemma wfx_Nil_fun: "wfx [] = wellformed"
  by (rule ext) (simp add: wfx_def)

lemma wf_exec:
  assumes w: "wellformed s"
  shows "wellformed (exec conv prj dv opn s)"
proof (cases opn)
  case (OpDirty b)
  show ?thesis unfolding OpDirty exec.simps
    by (rule hoare_snd [OF wfx_Dirty [of "[]", unfolded wfx_Nil_fun] w])
next
  case (OpClear b)
  show ?thesis unfolding OpClear exec.simps
    by (rule hoare_snd [OF wf_Clear [unfolded wfx_Nil_fun] w])
next
  case (OpSetMatrix b m)
  show ?thesis unfolding OpSetMatrix exec.simps
    by (rule hoare_snd [OF wfx_SetMatrix [of "[]", unfolded wfx_Nil_fun] w])
next
  case (OpSetColorMask b c)
  show ?thesis unfolding OpSetColorMask exec.simps
    by (rule hoare_snd [OF wfx_SetColorMask [of "[]", unfolded wfx_Nil_fun] w])
next
  case (OpMakeTriangles b t)
  show ?thesis unfolding OpMakeTriangles exec.simps by (rule wf_MakeTriangles [OF w])
next
  case (OpMakePicture b p)
  show ?thesis unfolding OpMakePicture exec.simps
    by (rule hoare_snd [OF wfx_MakePicture [of "[]", unfolded wfx_Nil_fun] w])
next
  case (OpLen bt)
  show ?thesis unfolding OpLen exec.simps
    by (rule hoare_snd [OF wf_Len [unfolded wfx_Nil_fun] w])
next
  case (OpSetLen bt n)
  show ?thesis unfolding OpSetLen exec.simps by (rule wf_SetLen [OF w])
next
  case (OpSlice bt i j)
  show ?thesis unfolding OpSlice exec.simps by (rule wf_Slice [OF w])
next
  case (OpUpdate bt t)
  show ?thesis unfolding OpUpdate exec.simps
    by (rule hoare_snd [OF wf_Update [unfolded wfx_Nil_fun] w])
next
  case (OpCopy bt)
  show ?thesis unfolding OpCopy exec.simps by (rule wf_Copy [OF w])
next
  case (OpDraw bt)
  show ?thesis unfolding OpDraw exec.simps
    by (rule hoare_snd [OF wf_Draw [unfolded wfx_Nil_fun] w])
next
  case (OpPictureDraw bp t)
  show ?thesis unfolding OpPictureDraw exec.simps
    by (rule hoare_snd [OF wf_PictureDraw [unfolded wfx_Nil_fun] w])
qed

lemma wf_run: "wellformed s \<Longrightarrow> wellformed (run conv prj dv ops s)"
  unfolding run_def by (induction ops arbitrary: s) (simp_all add: wf_exec)

subsection \<open>Buffers that no proxy and no batch shares\<close>

lemma kept_iff:
  "kept t b xs hs s \<longleftrightarrow> nth_opt (bufs s) t = Some b \<and> nth_opt (arrays s) (arr b) = Some xs \<and>
     (\<forall>x\<in>set (btris s). away s t (arr b) (tri x) \<and> away s t (arr b) (tmp x)) \<and>
     (\<forall>c\<in>set (batches s). away s t (arr b) (Triangles (cont c))) \<and>
     (\<forall>h\<in>set hs. away s t (arr b) h)"
  by (simp add: kept_def list_all_iff)

lemma kept_weaken: "kept t b xs hs s \<Longrightarrow> set hs' \<subseteq> set hs \<Longrightarrow> kept t b xs hs' s"
  by (simp add: kept_iff subset_iff)

lemma kept_Nil: "kept t b xs hs s \<Longrightarrow> kept t b xs [] s"
  by (simp add: kept_iff)

text \<open>
  A step keeps the caller's buffer when it leaves the buffer's record and its array as
  they were, keeps the proxies and every batch's container, and keeps away from the
  buffer every handle that was away from it.
\<close>

lemma kept_frame:
  assumes k: "kept t b xs hs s"
    and tb: "nth_opt (bufs s') t = Some b" and ta: "nth_opt (arrays s') (arr b) = Some xs"
    and bt: "btris s' = btris s"
    and ba: "map (\<lambda>c. Triangles (cont c)) (batches s') = map (\<lambda>c. Triangles (cont c)) (batches s)"
    and aw: "\<And>h. away s t (arr b) h \<Longrightarrow> away s' t (arr b) h"
  shows "kept t b xs hs s'"
proof -
  have 1: "\<forall>x\<in>set (btris s'). away s' t (arr b) (tri x) \<and> away s' t (arr b) (tmp x)"
    using k bt aw by (simp add: kept_iff)
  have 2: "\<forall>c\<in>set (batches s'). away s' t (arr b) (Triangles (cont c))"
  proof
    fix c assume "c \<in> set (batches s')"
    then have "Triangles (cont c) \<in> set (map (\<lambda>c. Triangles (cont c)) (batches s'))" by simp
    then have "Triangles (cont c) \<in> set (map (\<lambda>c. Triangles (cont c)) (batches s))"
      using ba by simp
    then obtain c0 where "c0 \<in> set (batches s)" "Triangles (cont c) = Triangles (cont c0)"
      by auto
    then show "away s' t (arr b) (Triangles (cont c))" using k aw by (simp add: kept_iff)
  qed
  have 3: "\<forall>h\<in>set hs. away s' t (arr b) h" using k aw by (simp add: kept_iff)
  show ?thesis unfolding kept_iff using tb ta 1 2 3 by blast
qed

lemma kept_deref: "hoare (kept t b xs hs) (deref sel r) (\<lambda>_. kept t b xs hs) (kept t b xs [])"
  by (auto simp: hoare_def deref_def split: option.splits intro: kept_Nil)

lemma kept_Len: "hoare (kept t b xs hs) (Triangles_Len h) (\<lambda>_. kept t b xs hs) (kept t b xs [])"
  by (auto simp: hoare_def Triangles_Len_def bnd_def ret_def deref_def split: option.splits
      intro: kept_Nil)

lemma kept_deref_btris:
  "hoare (kept t b xs hs) (deref btris bt) (\<lambda>x. kept t b xs (tri x # tmp x # hs)) (kept t b xs [])"
proof (rule hoareI)
  fix s r s' assume k: "kept t b xs hs s" and d: "deref btris bt s = (r, s')"
  show "case r of Inl e \<Rightarrow> kept t b xs [] s' | Inr x \<Rightarrow> kept t b xs (tri x # tmp x # hs) s'"
  proof (cases "nth_opt (btris s) bt")
    case None
    then show ?thesis using k d by (auto simp: deref_def intro: kept_Nil)
  next
    case (Some x)
    then have "x \<in> set (btris s)" by (auto simp: nth_opt_def split: if_splits)
    then have "away s t (arr b) (tri x) \<and> away s t (arr b) (tmp x)"
      using k by (simp add: kept_iff)
    then show ?thesis using k d Some by (auto simp: deref_def kept_iff)
  qed
qed

lemma kept_deref_batches:
  "hoare (kept t b xs hs) (deref batches r) (\<lambda>c. kept t b xs (Triangles (cont c) # hs))
     (kept t b xs [])"
proof (rule hoareI)
  fix s q s' assume k: "kept t b xs hs s" and d: "deref batches r s = (q, s')"
  show "case q of Inl e \<Rightarrow> kept t b xs [] s' | Inr c \<Rightarrow> kept t b xs (Triangles (cont c) # hs) s'"
  proof (cases "nth_opt (batches s) r")
    case None
    then show ?thesis using k d by (auto simp: deref_def intro: kept_Nil)
  next
    case (Some c)
    then have "c \<in> set (batches s)" by (auto simp: nth_opt_def split: if_splits)
    then have "away s t (arr b) (Triangles (cont c))" using k by (simp add: kept_iff)
    then show ?thesis using k d Some by (auto simp: deref_def kept_iff)
  qed
qed

text \<open>Writing into an array other than the caller's keeps the caller's buffer.\<close>

lemma kept_write:
  assumes k: "kept t b xs hs s" and a: "a \<noteq> arr b"
  shows "kept t b xs hs (s\<lparr>arrays := (arrays s)[a := ys]\<rparr>)"
proof (rule kept_frame [OF k])
  show "nth_opt (arrays (s\<lparr>arrays := (arrays s)[a := ys]\<rparr>)) (arr b) = Some xs"
    using k a by (simp add: kept_iff nth_opt_def split: if_splits)
  show "nth_opt (bufs (s\<lparr>arrays := (arrays s)[a := ys]\<rparr>)) t = Some b"
    using k by (simp add: kept_iff)
qed (simp_all add: away_def)

lemma kept_Update:
  assumes "h \<in> set hs"
  shows "hoare (kept t b xs hs) (Triangles_Update h t') (\<lambda>_. kept t b xs hs) (kept t b xs [])"
proof (rule hoareI)
  fix s r s' assume k: "kept t b xs hs s" and u: "Triangles_Update h t' s = (r, s')"
  from u have "kept t b xs hs s'"
  proof (cases rule: Triangles_Update_cases)
    case same
    then show ?thesis using k by simp
  next
    case (wrote c d zs)
    have "away s t (arr b) h" using k assms by (simp add: kept_iff)
    then have "arr c \<noteq> arr b" using wrote(1) by (simp add: away_def nth_opt_Some)
    then show ?thesis unfolding wrote(7) by (rule kept_write [OF k])
  qed
  then show "case r of Inl e \<Rightarrow> kept t b xs [] s' | Inr x \<Rightarrow> kept t b xs hs s'"
    by (cases r) (auto intro: kept_Nil)
qed

lemma kept_draw_step:
  "hoare (kept t b xs hs) (draw_step prj bt i) (\<lambda>_. kept t b xs hs) (kept t b xs [])"
proof (rule hoareI)
  fix s r s' assume k: "kept t b xs hs s" and u: "draw_step prj bt i s = (r, s')"
  note f = draw_step_frame [OF u]
  have "kept t b xs hs s'"
  proof (cases "s' = s")
    case True
    then show ?thesis using k by simp
  next
    case False
    then obtain x u where x: "nth_opt (btris s) bt = Some x" "nth_opt (bufs s) (tmp x) = Some u"
      and o: "\<forall>a. a \<noteq> arr u \<longrightarrow> arrays s' ! a = arrays s ! a"
      using f by blast
    have "x \<in> set (btris s)" using x(1) by (auto simp: nth_opt_def split: if_splits)
    then have "away s t (arr b) (tmp x)" using k by (simp add: kept_iff)
    then have n: "arr u \<noteq> arr b" using x(2) by (simp add: away_def nth_opt_Some)
    show ?thesis
    proof (rule kept_frame [OF k])
      show "nth_opt (arrays s') (arr b) = Some xs"
        using k o n f by (simp add: kept_iff nth_opt_def split: if_splits)
      show "nth_opt (bufs s') t = Some b" using k f by (simp add: kept_iff)
      show "\<And>h. away s t (arr b) h \<Longrightarrow> away s' t (arr b) h" using f by (simp add: away_def)
    qed (simp_all add: f)
  qed
  then show "case r of Inl e \<Rightarrow> kept t b xs [] s' | Inr x \<Rightarrow> kept t b xs hs s'"
    by (cases r) (auto intro: kept_Nil)
qed

lemma kept_draw_loop:
  "hoare (kept t b xs hs) (draw_loop prj bt is) (\<lambda>_. kept t b xs hs) (kept t b xs [])"
proof (induction "is")
  case Nil
  show ?case by (simp add: hoare_ret)
next
  case (Cons i "is")
  show ?case
    by (simp, rule hoare_bnd [OF kept_draw_step]) (rule Cons.IH)
qed

lemma Triangles_SetLen_frame:
  assumes u: "Triangles_SetLen dv h n s = (r, s')"
  obtains (same) "s' = s"
  | (resized) c c' where "nth_opt (bufs s) h = Some c" and "bufs s' = (bufs s)[h := c']"
      and "arr c' = arr c \<or> arr c' = length (arrays s)"
      and "length (arrays s) \<le> length (arrays s')"
      and "\<forall>a<length (arrays s). a \<noteq> arr c \<longrightarrow> arrays s' ! a = arrays s ! a"
      and "btris s' = btris s" and "batches s' = batches s"
proof (cases "nth_opt (bufs s) h")
  case None
  then show ?thesis using u by (intro same) (auto simp: Triangles_SetLen_def bnd_def deref_def)
next
  case (Some c)
  show ?thesis
  proof (cases "n < 0")
    case True
    then show ?thesis using u Some
      by (intro same) (auto simp: Triangles_SetLen_def bnd_def deref_def panic_def)
  next
    case n: False
    show ?thesis
    proof (cases "nat n \<le> len c")
      case True
      then show ?thesis using u Some n
        by (intro resized [of c "c\<lparr>len := nat n\<rparr>"])
          (auto simp: Triangles_SetLen_def bnd_def deref_def)
    next
      case g: False
      show ?thesis
      proof (cases "nth_opt (arrays s) (arr c)")
        case None
        then show ?thesis using u Some n g
          by (intro same) (auto simp: Triangles_SetLen_def bnd_def deref_def)
      next
        case xs: (Some xs)
        show ?thesis
        proof (cases "off c + nat n \<le> length xs")
          case True
          then show ?thesis using u Some n g xs
            by (intro resized [of c "c\<lparr>len := nat n\<rparr>"])
              (auto simp: Triangles_SetLen_def bnd_def deref_def nth_opt_Some)
        next
          case False
          then show ?thesis using u Some n g xs
            by (intro resized [of c "c\<lparr>arr := length (arrays s), off := 0, len := nat n\<rparr>"])
              (auto simp: Triangles_SetLen_def bnd_def deref_def nth_append)
        qed
      qed
    qed
  qed
qed

lemma kept_SetLen:
  assumes "h \<in> set hs"
  shows "hoare (kept t b xs hs) (Triangles_SetLen dv h n) (\<lambda>_. kept t b xs hs) (kept t b xs [])"
proof (rule hoareI)
  fix s r s' assume k: "kept t b xs hs s" and u: "Triangles_SetLen dv h n s = (r, s')"
  from u have "kept t b xs hs s'"
  proof (cases rule: Triangles_SetLen_frame)
    case same
    then show ?thesis using k by simp
  next
    case (resized c c')
    have aw: "away s t (arr b) h" using k assms by (simp add: kept_iff)
    then have hc: "h \<noteq> t" "arr c \<noteq> arr b" "h < length (bufs s)"
      using resized(1) by (simp_all add: away_def nth_opt_Some)
    have tb: "nth_opt (bufs s) t = Some b" and ta: "nth_opt (arrays s) (arr b) = Some xs"
      using k by (simp_all add: kept_iff)
    have lt: "arr b < length (arrays s)" using ta by (simp add: nth_opt_Some)
    show ?thesis
    proof (rule kept_frame [OF k])
      show "nth_opt (bufs s') t = Some b"
        using tb hc(1) resized(2) by (simp add: nth_opt_def split: if_splits)
      show "nth_opt (arrays s') (arr b) = Some xs"
        using ta lt hc(2) resized(4,5) by (simp add: nth_opt_def split: if_splits)
      show "\<And>k. away s t (arr b) k \<Longrightarrow> away s' t (arr b) k"
        using resized(2,3) hc lt by (auto simp: away_def nth_list_update)
    qed (simp_all add: resized)
  qed
  then show "case r of Inl e \<Rightarrow> kept t b xs [] s' | Inr x \<Rightarrow> kept t b xs hs s'"
    by (cases r) (auto intro: kept_Nil)
qed

text \<open>A new buffer over an array other than the caller's.\<close>

lemma kept_alloc:
  assumes k: "kept t b xs hs s" and a: "arr c \<noteq> arr b"
  shows "kept t b xs (length (bufs s) # hs) (s\<lparr>arrays := arrays s @ as, bufs := bufs s @ [c]\<rparr>)"
proof -
  let ?s = "s\<lparr>arrays := arrays s @ as, bufs := bufs s @ [c]\<rparr>"
  have tb: "nth_opt (bufs s) t = Some b" and ta: "nth_opt (arrays s) (arr b) = Some xs"
    using k by (simp_all add: kept_iff)
  have "kept t b xs hs ?s"
  proof (rule kept_frame [OF k])
    show "nth_opt (bufs ?s) t = Some b"
      using tb by (simp add: nth_opt_def nth_append split: if_splits)
    show "nth_opt (arrays ?s) (arr b) = Some xs"
      using ta by (simp add: nth_opt_def nth_append split: if_splits)
    show "\<And>h. away s t (arr b) h \<Longrightarrow> away ?s t (arr b) h"
      by (simp add: away_def nth_append)
  qed simp_all
  moreover have "away ?s t (arr b) (length (bufs s))"
    using tb a by (simp add: away_def nth_opt_Some)
  ultimately show ?thesis by (simp add: kept_iff)
qed

lemma kept_Slice:
  assumes "h \<in> set hs"
  shows "hoare (kept t b xs hs) (Triangles_Slice h i j) (\<lambda>x. kept t b xs (x # hs)) (kept t b xs [])"
proof (rule hoareI)
  fix s r s' assume k: "kept t b xs hs s" and u: "Triangles_Slice h i j s = (r, s')"
  from u show "case r of Inl e \<Rightarrow> kept t b xs [] s' | Inr x \<Rightarrow> kept t b xs (x # hs) s'"
  proof (cases rule: Triangles_Slice_cases)
    case same
    then show ?thesis using k by (auto intro: kept_Nil)
  next
    case (sliced c)
    have "away s t (arr b) h" using k assms by (simp add: kept_iff)
    then have "arr (c\<lparr>off := off c + nat i, len := nat (j - i)\<rparr>) \<noteq> arr b"
      using sliced(1) by (simp add: away_def nth_opt_Some)
    from kept_alloc [OF k this, of "[]"] show ?thesis using sliced(5,6) by simp
  qed
qed

lemma kept_Copy:
  "hoare (kept t b xs hs) (Triangles_Copy h) (\<lambda>x. kept t b xs (x # hs)) (kept t b xs [])"
proof (rule hoareI)
  fix s r s' assume k: "kept t b xs hs s" and u: "Triangles_Copy h s = (r, s')"
  from u show "case r of Inl e \<Rightarrow> kept t b xs [] s' | Inr x \<Rightarrow> kept t b xs (x # hs) s'"
  proof (cases rule: Triangles_Copy_cases)
    case same
    then show ?thesis using k by (auto intro: kept_Nil)
  next
    case (copied c)
    have "arr b < length (arrays s)" using k by (simp add: kept_iff nth_opt_Some)
    then have "arr (c\<lparr>arr := length (arrays s), off := 0\<rparr>) \<noteq> arr b" by simp
    from kept_alloc [OF k this, of "[view s c]"] show ?thesis using copied(2,3) by simp
  qed
qed

lemma kept_MakeTrianglesData:
  "hoare (kept t b xs hs) (MakeTrianglesData dv n) (\<lambda>x. kept t b xs (x # hs)) (kept t b xs [])"
proof (rule hoareI)
  fix s :: "('a, 'b, 'c) store" and r s'
  assume k: "kept t b xs hs s" and u: "MakeTrianglesData dv n s = (r, s')"
  from u show "case r of Inl e \<Rightarrow> kept t b xs [] s' | Inr x \<Rightarrow> kept t b xs (x # hs) s'"
  proof (cases rule: MakeTrianglesData_cases)
    case same
    then show ?thesis using k by (auto intro: kept_Nil)
  next
    case made
    have "arr b < length (arrays s)" using k by (simp add: kept_iff nth_opt_Some)
    then have "arr \<lparr>arr = length (arrays s), off = 0, len = nat n, props = all_fields\<rparr> \<noteq> arr b"
      by simp
    from kept_alloc [OF k this, of "[replicate (nat n) dv]"] show ?thesis using made(2,3) by simp
  qed
qed

lemma kept_new_proxy:
  assumes "c \<in> set hs" and "d \<in> set hs"
  shows "hoare (kept t b xs hs)
     (\<lambda>s. (Inr (f s), s\<lparr>btris := btris s @ [\<lparr>tri = c, tmp = d, dst = q\<rparr>]\<rparr>))
     (\<lambda>_. kept t b xs []) (kept t b xs [])"
  using assms by (auto simp: hoare_def kept_iff away_def)

lemma kept_batch_write:
  assumes k: "kept t b xs hs s" and "nth_opt (batches s) r = Some x"
    and "Triangles (cont y) = Triangles (cont x)"
  shows "kept t b xs hs (s\<lparr>batches := (batches s)[r := y]\<rparr>)"
proof (rule kept_frame [OF k])
  show "nth_opt (bufs (s\<lparr>batches := (batches s)[r := y]\<rparr>)) t = Some b"
    "nth_opt (arrays (s\<lparr>batches := (batches s)[r := y]\<rparr>)) (arr b) = Some xs"
    using k by (simp_all add: kept_iff)
qed (simp_all add: batch_write_frame [OF assms(2,3)] away_def)

lemma kept_Dirty: "hoare (kept t b xs hs) (Batch_Dirty r) (\<lambda>_. kept t b xs hs) (kept t b xs [])"
proof (rule hoareI)
  fix s q s' assume k: "kept t b xs hs s" and u: "Batch_Dirty r s = (q, s')"
  show "case q of Inl e \<Rightarrow> kept t b xs [] s' | Inr x \<Rightarrow> kept t b xs hs s'"
  proof (cases "nth_opt (batches s) r")
    case None
    then show ?thesis using u k by (auto simp: Batch_Dirty_def bnd_def deref_def intro: kept_Nil)
  next
    case (Some x)
    then show ?thesis using u kept_batch_write [OF k Some, of "x\<lparr>cont := Drawer_Dirty (cont x)\<rparr>"]
      by (auto simp: Batch_Dirty_def bnd_def deref_def Drawer_Dirty_def)
  qed
qed

lemma kept_SetMatrix:
  "hoare (kept t b xs hs) (Batch_SetMatrix r m) (\<lambda>_. kept t b xs hs) (kept t b xs [])"
proof (rule hoareI)
  fix s q s' assume k: "kept t b xs hs s" and u: "Batch_SetMatrix r m s = (q, s')"
  show "case q of Inl e \<Rightarrow> kept t b xs [] s' | Inr x \<Rightarrow> kept t b xs hs s'"
  proof (cases "nth_opt (batches s) r")
    case None
    then show ?thesis using u k by (auto simp: Batch_SetMatrix_def bnd_def deref_def intro: kept_Nil)
  next
    case (Some x)
    then show ?thesis using u kept_batch_write [OF k Some, of "x\<lparr>mat := m\<rparr>"]
      by (auto simp: Batch_SetMatrix_def bnd_def deref_def)
  qed
qed

lemma kept_SetColorMask:
  "hoare (kept t b xs hs) (Batch_SetColorMask conv r c) (\<lambda>_. kept t b xs hs) (kept t b xs [])"
proof (rule hoareI)
  fix s q s' assume k: "kept t b xs hs s" and u: "Batch_SetColorMask conv r c s = (q, s')"
  show "case q of Inl e \<Rightarrow> kept t b xs [] s' | Inr x \<Rightarrow> kept t b xs hs s'"
  proof (cases "nth_opt (batches s) r")
    case None
    then show ?thesis using u k
      by (auto simp: Batch_SetColorMask_def bnd_def deref_def intro: kept_Nil)
  next
    case (Some x)
    then show ?thesis
      using u kept_batch_write [OF k Some, of "x\<lparr>col := white\<rparr>"]
        kept_batch_write [OF k Some, of "x\<lparr>col := ToRGBA conv (the c)\<rparr>"]
      by (auto simp: Batch_SetColorMask_def bnd_def deref_def split: if_splits)
  qed
qed

lemma kept_MakePicture:
  "hoare (kept t b xs hs) (Batch_MakePicture r p) (\<lambda>_. kept t b xs hs) (kept t b xs [])"
proof (rule hoareI)
  fix s q s' assume k: "kept t b xs hs s" and u: "Batch_MakePicture r p s = (q, s')"
  have "s' = s \<or> (\<exists>ps. s' = s\<lparr>bpics := ps\<rparr>)"
    using u by (auto simp: Batch_MakePicture_def bnd_def deref_def panic_def
        split: option.splits if_splits sum.splits)
  moreover have "\<And>ps. kept t b xs hs (s\<lparr>bpics := ps\<rparr>)"
    using k by (intro kept_frame [OF k]) (simp_all add: kept_iff away_def)
  ultimately have "kept t b xs hs s'" using k by auto
  then show "case q of Inl e \<Rightarrow> kept t b xs [] s' | Inr x \<Rightarrow> kept t b xs hs s'"
    by (cases q) (auto intro: kept_Nil)
qed

subsection \<open>Every operation keeps the caller's buffer\<close>

lemma kept_op_MakeTriangles:
  "hoare (kept t b xs []) (Batch_MakeTriangles dv r t') (\<lambda>_. kept t b xs []) (kept t b xs [])"
  unfolding Batch_MakeTriangles_def
  apply (rule hoare_bnd [OF kept_Copy])
  apply (rule hoare_bnd [OF kept_Len])
  apply (rule hoare_bnd [OF kept_MakeTrianglesData])
  apply (rule kept_new_proxy)
   apply simp_all
  done

lemma kept_op_Slice:
  "hoare (kept t b xs []) (batchTriangles_Slice bt i j) (\<lambda>_. kept t b xs []) (kept t b xs [])"
  unfolding batchTriangles_Slice_def
  apply (rule hoare_bnd [OF kept_deref_btris])
  apply (rule hoare_bnd [OF kept_Slice])
   apply simp
  apply (rule hoare_bnd [OF kept_Slice])
   apply simp
  apply (rule kept_new_proxy)
   apply simp_all
  done

lemma kept_op_Copy:
  "hoare (kept t b xs []) (batchTriangles_Copy bt) (\<lambda>_. kept t b xs []) (kept t b xs [])"
  unfolding batchTriangles_Copy_def
  apply (rule hoare_bnd [OF kept_deref_btris])
  apply (rule hoare_bnd [OF kept_Copy])
  apply (rule hoare_bnd [OF kept_Copy])
  apply (rule kept_new_proxy)
   apply simp_all
  done

lemma kept_op_SetLen:
  "hoare (kept t b xs []) (batchTriangles_SetLen dv bt n) (\<lambda>_. kept t b xs []) (kept t b xs [])"
  unfolding batchTriangles_SetLen_def
  apply (rule hoare_bnd [OF kept_deref_btris])
  apply (rule hoare_bnd [OF kept_SetLen])
   apply simp
  apply (rule hoare_post [OF kept_SetLen])
    apply (simp_all add: kept_Nil)
  done

lemma kept_op_Update:
  "hoare (kept t b xs []) (batchTriangles_Update bt t') (\<lambda>_. kept t b xs []) (kept t b xs [])"
  unfolding batchTriangles_Update_def
  apply (rule hoare_bnd [OF kept_deref_btris])
  apply (rule hoare_post [OF kept_Update])
    apply (simp_all add: kept_Nil)
  done

lemma kept_op_Len:
  "hoare (kept t b xs []) (batchTriangles_Len bt) (\<lambda>_. kept t b xs []) (kept t b xs [])"
  unfolding batchTriangles_Len_def
  by (rule hoare_bnd [OF kept_deref]) (rule kept_Len)

lemma kept_op_Clear:
  "hoare (kept t b xs []) (Batch_Clear dv r) (\<lambda>_. kept t b xs []) (kept t b xs [])"
  unfolding Batch_Clear_def
  apply (rule hoare_bnd [OF kept_deref_batches])
  apply (rule hoare_bnd [OF kept_SetLen])
   apply simp
  apply (rule hoare_post [OF kept_Dirty])
   apply (simp_all add: kept_Nil)
  done

lemma kept_op_draw:
  "hoare (kept t b xs []) (batchTriangles_draw prj dv bt bp) (\<lambda>_. kept t b xs []) (kept t b xs [])"
  unfolding batchTriangles_draw_def
  apply (rule hoare_bnd [OF kept_deref_btris])
  apply (rule hoare_bnd [OF kept_Update])
   apply simp
  apply (rule hoare_bnd [OF kept_deref])
  apply (rule hoare_bnd [OF kept_draw_loop])
  apply (rule hoare_bnd [OF kept_deref_batches])
  apply (rule hoare_bnd [OF kept_Len])
  apply (rule hoare_bnd [OF kept_Len])
  apply (rule hoare_bnd [OF kept_SetLen])
   apply simp
  apply (rule hoare_bnd [OF kept_Len])
  apply (rule hoare_bnd [OF kept_Len])
  apply (rule hoare_bnd [OF kept_Len])
  apply (rule hoare_bnd [OF kept_Slice])
   apply simp
  apply (rule hoare_bnd [OF kept_Update])
   apply simp
  apply (rule hoare_bnd [OF kept_Update])
   apply simp
  apply (rule hoare_post [OF kept_Dirty])
   apply (simp_all add: kept_Nil)
  done

lemma kept_op_PictureDraw:
  "hoare (kept t b xs []) (batchPicture_Draw prj dv bp tt) (\<lambda>_. kept t b xs []) (kept t b xs [])"
proof (cases tt)
  case (TTbatch bt)
  show ?thesis
    unfolding batchPicture_Draw_def TTbatch
    apply simp
    apply (rule hoare_bnd [OF kept_deref])
    apply (rule hoare_bnd [OF kept_deref])
    apply (rule hoare_if)
     apply (rule hoare_panic)
     apply simp
    apply (rule kept_op_draw)
    done
qed (auto simp: batchPicture_Draw_def intro!: hoare_panic)

lemma kept_exec:
  assumes k: "kept t b xs [] s"
  shows "kept t b xs [] (exec conv prj dv opn s)"
proof (cases opn)
  case (OpDirty r)
  show ?thesis unfolding OpDirty exec.simps by (rule hoare_snd [OF kept_Dirty k])
next
  case (OpClear r)
  show ?thesis unfolding OpClear exec.simps by (rule hoare_snd [OF kept_op_Clear k])
next
  case (OpSetMatrix r m)
  show ?thesis unfolding OpSetMatrix exec.simps by (rule hoare_snd [OF kept_SetMatrix k])
next
  case (OpSetColorMask r c)
  show ?thesis unfolding OpSetColorMask exec.simps by (rule hoare_snd [OF kept_SetColorMask k])
next
  case (OpMakeTriangles r t')
  show ?thesis unfolding OpMakeTriangles exec.simps by (rule hoare_snd [OF kept_op_MakeTriangles k])
next
  case (OpMakePicture r p)
  show ?thesis unfolding OpMakePicture exec.simps by (rule hoare_snd [OF kept_MakePicture k])
next
  case (OpLen bt)
  show ?thesis unfolding OpLen exec.simps by (rule hoare_snd [OF kept_op_Len k])
next
  case (OpSetLen bt n)
  show ?thesis unfolding OpSetLen exec.simps by (rule hoare_snd [OF kept_op_SetLen k])
next
  case (OpSlice bt i j)
  show ?thesis unfolding OpSlice exec.simps by (rule hoare_snd [OF kept_op_Slice k])
next
  case (OpUpdate bt t')
  show ?thesis unfolding OpUpdate exec.simps by (rule hoare_snd [OF kept_op_Update k])
next
  case (OpCopy bt)
  show ?thesis unfolding OpCopy exec.simps by (rule hoare_snd [OF kept_op_Copy k])
next
  case (OpDraw bt)
  show ?thesis unfolding OpDraw exec.simps batchTriangles_Draw_def
    by (rule hoare_snd [OF kept_op_draw k])
next
  case (OpPictureDraw bp tt)
  show ?thesis unfolding OpPictureDraw exec.simps by (rule hoare_snd [OF kept_op_PictureDraw k])
qed

lemma kept_run: "kept t b xs [] s \<Longrightarrow> kept t b xs [] (run conv prj dv ops s)"
  unfolding run_def by (induction ops arbitrary: s) (simp_all add: kept_exec)

lemma apart_kept:
  "apart s t \<longleftrightarrow> (\<exists>b xs. kept t b xs [] s)"
  by (auto simp: apart_def kept_def split: option.splits)

lemma kept_contents: "kept t b xs hs s \<Longrightarrow> contents s t = take (len b) (drop (off b) xs)"
  by (simp add: kept_iff contents_def view_def)

lemma Triangles_Copy_lookup:
  assumes "nth_opt (bufs s) h = Some b" and "nth_opt (arrays s) (arr b) = Some xs"
  shows "Triangles_Copy h s = (Inr (length (bufs s)),
           s\<lparr>arrays := arrays s @ [view s b],
             bufs := bufs s @ [b\<lparr>arr := length (arrays s), off := 0\<rparr>]\<rparr>)"
  using assms by (simp add: Triangles_Copy_def bnd_def deref_def)

lemma MakeTriangles_lookup:
  assumes T: "nth_opt (bufs s) t = Some T" and xs: "nth_opt (arrays s) (arr T) = Some xs"
  shows "Batch_MakeTriangles dv b t s = (Inr (TTbatch (length (btris s))),
     s\<lparr>arrays := arrays s @ [view s T, replicate (len T) dv],
       bufs := bufs s @ [T\<lparr>arr := length (arrays s), off := 0\<rparr>,
         \<lparr>arr = Suc (length (arrays s)), off = 0, len = len T, props = all_fields\<rparr>],
       btris := btris s @ [\<lparr>tri = length (bufs s), tmp = Suc (length (bufs s)), dst = b\<rparr>]\<rparr>)"
proof -
  define s1 where "s1 = s\<lparr>arrays := arrays s @ [view s T],
             bufs := bufs s @ [T\<lparr>arr := length (arrays s), off := 0\<rparr>]\<rparr>"
  have 1: "Triangles_Copy t s = (Inr (length (bufs s)), s1)"
    using Triangles_Copy_lookup [OF T xs] by (simp add: s1_def)
  have "nth_opt (bufs s1) t = Some T"
    using T by (simp add: s1_def nth_opt_def nth_append split: if_splits)
  then have 2: "Triangles_Len t s1 = (Inr (int (len T)), s1)" by (rule Triangles_Len_eq)
  have 3: "MakeTrianglesData dv (int (len T)) s1 = (Inr (length (bufs s1)),
      s1\<lparr>arrays := arrays s1 @ [replicate (nat (int (len T))) dv],
        bufs := bufs s1 @ [\<lparr>arr = length (arrays s1), off = 0, len = nat (int (len T)), props = all_fields\<rparr>]\<rparr>)"
    by (rule MakeTrianglesData_eq) simp
  show ?thesis
    unfolding Batch_MakeTriangles_def
    by (simp add: bnd_def 1 2 3) (simp add: s1_def)
qed

lemma lockstep_Len:
  assumes "lockstep s x"
  shows "Triangles_Len (tri x) s = (Inr (int (len (bufs s ! tri x))), s)
       \<and> Triangles_Len (tmp x) s = (Inr (int (len (bufs s ! tri x))), s)"
proof -
  from assms have a: "nth_opt (bufs s) (tri x) = Some (bufs s ! tri x)"
    and b: "nth_opt (bufs s) (tmp x) = Some (bufs s ! tmp x)"
    and c: "len (bufs s ! tri x) = len (bufs s ! tmp x)"
    by (simp_all add: lockstep_def nth_opt_def)
  show ?thesis using Triangles_Len_eq [OF a] Triangles_Len_eq [OF b] c by simp
qed

subsection \<open>The picture bound to a batch\<close>
































subsection \<open>The clone and the scratch buffer of a proxy\<close>

text \<open>
  C6. In a well-formed store the clone \<open>tri\<close> and the scratch buffer \<open>tmp\<close> of
  every proxy have the same length, and every sequence of operations (MakeTriangles,
  SetLen, Slice, Copy, Update, the merges and the operations of the batch) leads to a
  well-formed store again: of every proxy of the store reached, whichever operation
  created it, \<open>tri.Len()\<close> and \<open>tmp.Len()\<close> return the same number, which is what
  the proxy's \<open>Len\<close> returns.
\<close>

theorem lockstep_invariant:
  assumes "wellformed s" and "s' = run conv prj dv ops s" and "nth_opt (btris s') bt = Some x"
  shows "wellformed s' \<and> (\<exists>n. Triangles_Len (tri x) s' = (Inr n, s')
                       \<and> Triangles_Len (tmp x) s' = (Inr n, s')
                       \<and> batchTriangles_Len bt s' = (Inr n, s'))"
proof -
  have w: "wellformed s'" unfolding assms(2) by (rule wf_run [OF assms(1)])
  from assms(3) have "x \<in> set (btris s')" by (auto simp: nth_opt_Some)
  with w have "lockstep s' x" by (simp add: wellformed_def list_all_iff)
  from lockstep_Len [OF this] assms(3) w show ?thesis
    by (simp add: batchTriangles_Len_def bnd_def deref_def)
qed

theorem lockstep_invariant_witness:
  "wellformed ex_store \<and>
   nth_opt (btris (run (\<lambda>_::unit. white) ex_prj ex_dv
      [OpMakeTriangles 0 6, OpSetLen 3 5, OpSlice 3 1 4, OpCopy 4, OpUpdate 0 6, OpDraw 3,
       OpPictureDraw 0 (TTbatch 0)] ex_store)) 4
     = Some \<lparr>tri = 11, tmp = 12, dst = 0\<rparr> \<and>
   Triangles_Len 11 (run (\<lambda>_::unit. white) ex_prj ex_dv
      [OpMakeTriangles 0 6, OpSetLen 3 5, OpSlice 3 1 4, OpCopy 4, OpUpdate 0 6, OpDraw 3,
       OpPictureDraw 0 (TTbatch 0)] ex_store)
     = (Inr 3, run (\<lambda>_::unit. white) ex_prj ex_dv
      [OpMakeTriangles 0 6, OpSetLen 3 5, OpSlice 3 1 4, OpCopy 4, OpUpdate 0 6, OpDraw 3,
       OpPictureDraw 0 (TTbatch 0)] ex_store) \<and>
   Triangles_Len 12 (run (\<lambda>_::unit. white) ex_prj ex_dv
      [OpMakeTriangles 0 6, OpSetLen 3 5, OpSlice 3 1 4, OpCopy 4, OpUpdate 0 6, OpDraw 3,
       OpPictureDraw 0 (TTbatch 0)] ex_store)
     = (Inr 3, run (\<lambda>_::unit. white) ex_prj ex_dv
      [OpMakeTriangles 0 6, OpSetLen 3 5, OpSlice 3 1 4, OpCopy 4, OpUpdate 0 6, OpDraw 3,
       OpPictureDraw 0 (TTbatch 0)] ex_store)"
proof -
  define s' where "s' = run (\<lambda>_::unit. white) ex_prj ex_dv
      [OpMakeTriangles 0 6, OpSetLen 3 5, OpSlice 3 1 4, OpCopy 4, OpUpdate 0 6, OpDraw 3,
       OpPictureDraw 0 (TTbatch 0)] ex_store"
  have w: "wellformed ex_store" by code_simp
  have x: "nth_opt (btris s') 4 = Some \<lparr>tri = 11, tmp = 12, dst = 0\<rparr>"
    unfolding s'_def by code_simp
  have n: "len (bufs s' ! 11) = 3" unfolding s'_def by code_simp
  from lockstep_invariant [OF w s'_def x] obtain n where
    "Triangles_Len 11 s' = (Inr n, s')" "Triangles_Len 12 s' = (Inr n, s')"
    by auto
  moreover have "fst (Triangles_Len 11 s') = Inr 3" unfolding s'_def by code_simp
  ultimately have "Triangles_Len 11 s' = (Inr 3, s')" "Triangles_Len 12 s' = (Inr 3, s')"
    by simp_all
  with w x show ?thesis unfolding s'_def by simp
qed

subsection \<open>The geometry handed to MakeTriangles\<close>

text \<open>
  C5. Let \<open>t\<close> be a buffer that is apart from the proxies and the batches of the store:
  no proxy holds it, it is no batch's container, and its backing array is the backing
  array of none of those buffers. Then \<open>MakeTriangles\<close> returns a proxy of the batch
  whose clone has the contents of \<open>t\<close>, and after every sequence of operations
  \<open>t\<close> is still apart, has the record it had and the contents it had when the proxy
  was made.
\<close>

theorem MakeTriangles_independent:
  assumes ap: "apart s t"
    and mk: "Batch_MakeTriangles dv b t s = (r, s1)"
    and s2: "s2 = run conv prj dv ops s1"
  shows "\<exists>bt x. r = Inr (TTbatch bt) \<and> nth_opt (btris s1) bt = Some x
           \<and> batchTriangles.dst x = b \<and> contents s1 (tri x) = contents s t
           \<and> contents s1 t = contents s t
           \<and> apart s2 t \<and> nth_opt (bufs s2) t = nth_opt (bufs s) t
           \<and> contents s2 t = contents s t"
proof -
  from ap obtain T xs where k: "kept t T xs [] s" by (auto simp: apart_kept)
  then have T: "nth_opt (bufs s) t = Some T" and xs: "nth_opt (arrays s) (arr T) = Some xs"
    by (simp_all add: kept_def)
  define x where "x = \<lparr>tri = length (bufs s), tmp = Suc (length (bufs s)), dst = b\<rparr>"
  note e = MakeTriangles_lookup [OF T xs, of dv b]
  from mk e have r: "r = Inr (TTbatch (length (btris s)))" by simp
  from mk e have s1: "s1 = s\<lparr>arrays := arrays s @ [view s T, replicate (len T) dv],
       bufs := bufs s @ [T\<lparr>arr := length (arrays s), off := 0\<rparr>,
         \<lparr>arr = Suc (length (arrays s)), off = 0, len = len T, props = all_fields\<rparr>],
       btris := btris s @ [x]\<rparr>"
    by (simp add: x_def)
  have x: "nth_opt (btris s1) (length (btris s)) = Some x"
    by (simp add: s1 nth_opt_def)
  have c: "contents s1 (tri x) = contents s t"
    using T xs by (simp add: s1 x_def contents_def nth_opt_def view_def nth_append)
  have "kept t T xs [] (snd (Batch_MakeTriangles dv b t s))"
    by (rule hoare_snd [OF kept_op_MakeTriangles k])
  then have k1: "kept t T xs [] s1" by (simp add: mk)
  then have k2: "kept t T xs [] s2" unfolding s2 by (rule kept_run)
  have c0: "contents s t = take (len T) (drop (off T) xs)" by (rule kept_contents [OF k])
  have c1: "contents s1 t = contents s t" using kept_contents [OF k1] c0 by simp
  have c2: "contents s2 t = contents s t" using kept_contents [OF k2] c0 by simp
  have a2: "apart s2 t" using k2 by (auto simp: apart_kept)
  have b2: "nth_opt (bufs s2) t = nth_opt (bufs s) t" using k2 T by (simp add: kept_def)
  from r x c c1 c2 a2 b2 show ?thesis by (auto simp: x_def)
qed

theorem MakeTriangles_independent_witness:
  "apart ex_store 6 \<and>
   fst (Batch_MakeTriangles ex_dv 0 6 ex_store) = Inr (TTbatch 3) \<and>
   contents (run (\<lambda>_::unit. white) ex_prj ex_dv
       [OpSetLen 3 5, OpUpdate 3 2, OpDraw 3, OpSlice 3 1 2, OpCopy 3, OpClear 0,
        OpPictureDraw 0 (TTbatch 3)]
       (snd (Batch_MakeTriangles ex_dv 0 6 ex_store))) 6
     = [ex_vertex 1 1 1, ex_vertex 2 2 2, ex_vertex 3 3 3]"
proof -
  have a: "apart ex_store 6" by code_simp
  have c: "contents ex_store 6 = [ex_vertex 1 1 1, ex_vertex 2 2 2, ex_vertex 3 3 3]"
    by code_simp
  have r: "fst (Batch_MakeTriangles ex_dv 0 6 ex_store) = Inr (TTbatch 3)" by code_simp
  from MakeTriangles_independent [OF a surjective_pairing refl,
      where conv = "\<lambda>_::unit. white" and prj = ex_prj
        and ops = "[OpSetLen 3 5, OpUpdate 3 2, OpDraw 3, OpSlice 3 1 2, OpCopy 3, OpClear 0,
        OpPictureDraw 0 (TTbatch 3)]"]
  show ?thesis using a c r by auto
qed

text \<open>
  Without the condition the geometry handed to \<open>MakeTriangles\<close> can change: when
  \<open>t\<close> is the container of the batch, merging the proxy appends the clone to
  \<open>t\<close>. In \<open>ex_used\<close> buffer 0 is the container of batch 0 and holds nine
  vertices; after \<open>MakeTriangles\<close> of it and one merge of the proxy it holds eighteen.
\<close>

theorem MakeTriangles_container_counterexample:
  "nth_opt (batches ex_used) 0 = Some (ex_batch 0 (PicPtr 7) 2 3) \<and>
   Triangles (cont (ex_batch 0 (PicPtr 7) 2 3)) = 0 \<and>
   fst (Batch_MakeTriangles ex_dv 0 0 ex_used) = Inr (TTbatch 3) \<and>
   fst (batchTriangles_Draw ex_prj ex_dv 3 (snd (Batch_MakeTriangles ex_dv 0 0 ex_used))) = Inr () \<and>
   length (contents ex_used 0) = 9 \<and>
   length (contents (snd (batchTriangles_Draw ex_prj ex_dv 3
      (snd (Batch_MakeTriangles ex_dv 0 0 ex_used)))) 0) = 18 \<and>
   contents (snd (batchTriangles_Draw ex_prj ex_dv 3
      (snd (Batch_MakeTriangles ex_dv 0 0 ex_used)))) 0 \<noteq> contents ex_used 0"
  by code_simp

subsection \<open>MakePicture\<close>




end
